theory Spec2Isabelle
  imports Main
begin

section \<open>Values, callbacks and the object heap\<close>

text \<open>
  \<^verbatim>\<open>Subscription.ts\<close> is written against untyped JavaScript values: \<^verbatim>\<open>add\<close> inspects
  its argument with \<^verbatim>\<open>typeof\<close>, teardown callbacks are arbitrary functions, and a thrown
  value can be anything. A value is one of the primitives, a function, a reference to a
  heap object, or an error object. A function is represented by its body: a list of
  statements that may call back into the Subscription API (re-entrancy), throw, or record
  an observable effect in the log. Callback bodies name the objects they use by reference,
  so the receiver passed by \<^verbatim>\<open>.call(this)\<close> is not consulted.
\<close>

type_synonym addr = nat

datatype val =
    Undefined
  | Null
  | Boolean bool
  | Number int
  | Str string
  | Function "stmt list"
  | Ref addr
  | Error string
  | TypeError
  | UnsubscriptionError "val list"
and stmt =
    CallUnsubscribe val
  | CallAdd val val
  | CallRemove val val
  | Throw val
  | Log string

text \<open>The fields of \<^verbatim>\<open>class Subscription\<close>: \<^verbatim>\<open>isUnsubscribed\<close>, \<^verbatim>\<open>_unsubscribe\<close>
  (absent is \<open>Undefined\<close>) and \<^verbatim>\<open>_subscriptions\<close> (absent or \<^verbatim>\<open>null\<close> is \<open>None\<close>).\<close>

record subscription =
  isUnsubscribed :: bool
  priv_unsubscribe :: val
  priv_subscriptions :: "val list option"

text \<open>A heap object is a Subscription or a plain object, of which only the properties
  \<^verbatim>\<open>isUnsubscribed\<close> and \<^verbatim>\<open>unsubscribe\<close> are ever read by the code.\<close>

datatype obj =
    Sub subscription
  | Plain val val

record world =
  heap :: "obj list"
  log :: "string list"

datatype completion = Normal | Thrown val

definition lookup :: "world \<Rightarrow> addr \<Rightarrow> obj option" where
  "lookup w a = (if a < length (heap w) then Some (heap w ! a) else None)"

definition store :: "world \<Rightarrow> addr \<Rightarrow> obj \<Rightarrow> world" where
  "store w a ob = w\<lparr>heap := (heap w)[a := ob]\<rparr>"

fun typeof :: "val \<Rightarrow> string" where
  "typeof Undefined = ''undefined''"
| "typeof Null = ''object''"
| "typeof (Boolean b) = ''boolean''"
| "typeof (Number n) = ''number''"
| "typeof (Str s) = ''string''"
| "typeof (Function b) = ''function''"
| "typeof (Ref a) = ''object''"
| "typeof (Error m) = ''object''"
| "typeof TypeError = ''object''"
| "typeof (UnsubscriptionError es) = ''object''"

text \<open>JavaScript truthiness: \<^verbatim>\<open>undefined\<close>, \<^verbatim>\<open>null\<close>, \<^verbatim>\<open>false\<close>, \<^verbatim>\<open>0\<close> and \<^verbatim>\<open>''\<close> are falsy.\<close>

fun truthy :: "val \<Rightarrow> bool" where
  "truthy Undefined = False"
| "truthy Null = False"
| "truthy (Boolean b) = b"
| "truthy (Number n) = (n \<noteq> 0)"
| "truthy (Str s) = (s \<noteq> [])"
| "truthy _ = True"

text \<open>The helpers of \<^verbatim>\<open>./util\<close> are not among the sources; they are taken with their
  usual meaning: \<^verbatim>\<open>isFunction(x)\<close> is \<^verbatim>\<open>typeof x === 'function'\<close>, \<^verbatim>\<open>isObject(x)\<close> is
  \<^verbatim>\<open>x != null && typeof x === 'object'\<close>, \<^verbatim>\<open>isArray\<close> is \<^verbatim>\<open>Array.isArray\<close>, and
  \<^verbatim>\<open>tryCatch(f).call(o)\<close> calls \<^verbatim>\<open>f\<close> and hands a thrown value back as
  \<^verbatim>\<open>errorObject.e\<close> instead of propagating it.\<close>

definition isFunction :: "val \<Rightarrow> bool" where
  "isFunction x = (typeof x = ''function'')"

definition isObject :: "val \<Rightarrow> bool" where
  "isObject x = (x \<noteq> Null \<and> x \<noteq> Undefined \<and> typeof x = ''object'')"

definition isArray :: "val list option \<Rightarrow> bool" where
  "isArray xs = (xs \<noteq> None)"

fun body_of :: "val \<Rightarrow> stmt list" where
  "body_of (Function b) = b"
| "body_of _ = []"

text \<open>The static \<^verbatim>\<open>Subscription.EMPTY\<close> is the first object ever allocated.\<close>

definition EMPTY :: addr where
  "EMPTY = 0"

text \<open>\<^verbatim>\<open>new Subscription(_unsubscribe)\<close>: the callback is stored only when it is truthy.\<close>

definition new_Subscription :: "world \<Rightarrow> val \<Rightarrow> world \<times> addr" where
  "new_Subscription w f =
     (w\<lparr>heap := heap w @
          [Sub \<lparr>isUnsubscribed = False,
                priv_unsubscribe = (if truthy f then f else Undefined),
                priv_subscriptions = None\<rparr>]\<rparr>,
      length (heap w))"

definition init_world :: world where
  "init_world =
     \<lparr>heap = [Sub \<lparr>isUnsubscribed = True, priv_unsubscribe = Undefined,
                   priv_subscriptions = None\<rparr>],
      log = []\<rparr>"

text \<open>Property reads \<^verbatim>\<open>sub.isUnsubscribed\<close> (as a condition) and \<^verbatim>\<open>sub.unsubscribe\<close> on an
  arbitrary object value. A Subscription inherits \<^verbatim>\<open>unsubscribe\<close> from its class; error
  objects have neither property.\<close>

definition get_isUnsubscribed :: "world \<Rightarrow> val \<Rightarrow> bool" where
  "get_isUnsubscribed w x =
     (case x of
        Ref a \<Rightarrow> (case lookup w a of
                    Some (Sub s) \<Rightarrow> isUnsubscribed s
                  | Some (Plain iu un) \<Rightarrow> truthy iu
                  | None \<Rightarrow> False)
      | _ \<Rightarrow> False)"

definition typeof_unsubscribe :: "world \<Rightarrow> val \<Rightarrow> string" where
  "typeof_unsubscribe w x =
     (case x of
        Ref a \<Rightarrow> (case lookup w a of
                    Some (Sub s) \<Rightarrow> ''function''
                  | Some (Plain iu un) \<Rightarrow> typeof un
                  | None \<Rightarrow> ''undefined'')
      | _ \<Rightarrow> ''undefined'')"

text \<open>String conversion of the primitives that can reach the error message of \<^verbatim>\<open>add\<close>.\<close>

fun digits :: "nat \<Rightarrow> string" where
  "digits n = (if n < 10 then [char_of (48 + n)] else digits (n div 10) @ [char_of (48 + n mod 10)])"

fun toString :: "val \<Rightarrow> string" where
  "toString (Boolean b) = (if b then ''true'' else ''false'')"
| "toString (Number n) = (if n < 0 then CHR ''-'' # digits (nat (- n)) else digits (nat n))"
| "toString (Str s) = s"
| "toString Undefined = ''undefined''"
| "toString Null = ''null''"
| "toString _ = ''[object Object]''"

definition Unrecognized :: "val \<Rightarrow> val" where
  "Unrecognized x = Error (''Unrecognized subscription '' @ toString x @ '' added to Subscription.'')"

subsection \<open>remove\<close>

text \<open>\<^verbatim>\<open>Array.prototype.indexOf\<close> compares with \<^verbatim>\<open>===\<close>; the children of a node are object
  references, which \<^verbatim>\<open>===\<close> compares by identity. The result is \<open>-1\<close> when absent.\<close>

fun indexOf :: "val list \<Rightarrow> val \<Rightarrow> int" where
  "indexOf [] x = -1"
| "indexOf (y # ys) x = (if y = x then 0 else (let i = indexOf ys x in if i = -1 then -1 else i + 1))"

definition splice1 :: "val list \<Rightarrow> int \<Rightarrow> val list" where
  "splice1 xs i = take (nat i) xs @ drop (nat i + 1) xs"

definition remove :: "world \<Rightarrow> addr \<Rightarrow> val \<Rightarrow> world" where
  "remove w this subscription =
     (if subscription = Null \<or> subscription = Undefined \<or> subscription = Ref this
         \<or> subscription = Ref EMPTY
      then w
      else (case lookup w this of
              Some (Sub s) \<Rightarrow>
                (case priv_subscriptions s of
                   None \<Rightarrow> w
                 | Some subscriptions \<Rightarrow>
                     (let subscriptionIndex = indexOf subscriptions subscription in
                      if subscriptionIndex \<noteq> -1
                      then store w this
                             (Sub (s\<lparr>priv_subscriptions :=
                                      Some (splice1 subscriptions subscriptionIndex)\<rparr>))
                      else w))
            | _ \<Rightarrow> w))"

subsection \<open>unsubscribe and add\<close>

text \<open>The children of a node: \<^verbatim>\<open>this._subscriptions || []\<close>.\<close>

definition children :: "subscription \<Rightarrow> val list" where
  "children s = (case priv_subscriptions s of None \<Rightarrow> [] | Some xs \<Rightarrow> xs)"

text \<open>Lines 52-56 of \<^verbatim>\<open>unsubscribe\<close>: the flag is set, \<^verbatim>\<open>_unsubscribe\<close> and
  \<^verbatim>\<open>_subscriptions\<close> are read into locals, and \<^verbatim>\<open>this._subscriptions\<close> is set to \<^verbatim>\<open>null\<close>.
  Nothing is assigned to \<^verbatim>\<open>this._unsubscribe\<close>.\<close>

definition detach :: "world \<Rightarrow> addr \<Rightarrow> subscription \<Rightarrow> world" where
  "detach w this s = store w this (Sub (s\<lparr>isUnsubscribed := True, priv_subscriptions := None\<rparr>))"

text \<open>
  \<^verbatim>\<open>unsubscribe\<close> runs callbacks, callbacks call \<^verbatim>\<open>unsubscribe\<close> and \<^verbatim>\<open>add\<close>, and a plain
  object's \<^verbatim>\<open>unsubscribe\<close> method may call itself without end. The first argument bounds
  the depth of nested method calls; \<open>None\<close> means that the bound was reached. A
  completed call returns how it completed (\<open>Normal\<close>, or \<open>Thrown e\<close>) and the new world.

  \<^item> \<open>unsubscribe k w this\<close> is \<^verbatim>\<open>Subscription.prototype.unsubscribe\<close> (lines 44-92);
  \<^item> \<open>unsubscribe_loop\<close> is its \<^verbatim>\<open>while (++index < len)\<close> loop (lines 71-86), \<open>index\<close>
    starting at \<open>-1\<close>;
  \<^item> \<open>call_unsubscribe k w sub\<close> is the method call \<^verbatim>\<open>sub.unsubscribe()\<close>, dispatched on
    the object found at \<open>sub\<close>;
  \<^item> \<open>invoke\<close> runs a function body, \<open>exec\<close> one statement of it;
  \<^item> \<open>add k w this subscription\<close> is \<^verbatim>\<open>Subscription.prototype.add\<close> (lines 94-122).

  The receiver \<open>this\<close> of a method is a Subscription of the heap; a call on anything
  else is a \<open>TypeError\<close>.
\<close>

function (sequential) unsubscribe :: "nat \<Rightarrow> world \<Rightarrow> addr \<Rightarrow> (completion \<times> world) option"
and unsubscribe_loop ::
  "nat \<Rightarrow> world \<Rightarrow> val list \<Rightarrow> int \<Rightarrow> int \<Rightarrow> bool \<Rightarrow> val list option
     \<Rightarrow> ((bool \<times> val list option) \<times> world) option"
and call_unsubscribe :: "nat \<Rightarrow> world \<Rightarrow> val \<Rightarrow> (completion \<times> world) option"
and invoke :: "nat \<Rightarrow> world \<Rightarrow> stmt list \<Rightarrow> (completion \<times> world) option"
and exec :: "nat \<Rightarrow> world \<Rightarrow> stmt \<Rightarrow> (completion \<times> world) option"
and add :: "nat \<Rightarrow> world \<Rightarrow> addr \<Rightarrow> val \<Rightarrow> (completion \<times> world) option"
where
  "unsubscribe k w this =
     (case lookup w this of
        Some (Sub s) \<Rightarrow>
          if isUnsubscribed s then Some (Normal, w)
          else
            (let w1 = detach w this s
             in (case (if isFunction (priv_unsubscribe s)
                       then (case invoke k w1 (body_of (priv_unsubscribe s)) of
                               None \<Rightarrow> None
                             | Some (Normal, w2) \<Rightarrow> Some ((False, None), w2)
                             | Some (Thrown e, w2) \<Rightarrow> Some ((True, Some [e]), w2))
                       else Some ((False, None), w1)) of
                   None \<Rightarrow> None
                 | Some ((hasErrors, errors), w2) \<Rightarrow>
                     (case (if isArray (priv_subscriptions s)
                            then unsubscribe_loop k w2 (the (priv_subscriptions s)) (-1)
                                   (int (length (the (priv_subscriptions s)))) hasErrors errors
                            else Some ((hasErrors, errors), w2)) of
                        None \<Rightarrow> None
                      | Some ((hasErrors', errors'), w3) \<Rightarrow>
                          Some (if hasErrors'
                                then Thrown (UnsubscriptionError (case errors' of None \<Rightarrow> [] | Some es \<Rightarrow> es))
                                else Normal, w3))))
      | _ \<Rightarrow> Some (Thrown TypeError, w))"
| "unsubscribe_loop k w subs index len hasErrors errors =
     (if index + 1 < len then
        (if isObject (subs ! nat (index + 1)) then
           (case call_unsubscribe k w (subs ! nat (index + 1)) of
              None \<Rightarrow> None
            | Some (Normal, w') \<Rightarrow> unsubscribe_loop k w' subs (index + 1) len hasErrors errors
            | Some (Thrown err, w') \<Rightarrow>
                unsubscribe_loop k w' subs (index + 1) len True
                  (case err of
                     UnsubscriptionError es \<Rightarrow> Some ((case errors of None \<Rightarrow> [] | Some xs \<Rightarrow> xs) @ es)
                   | _ \<Rightarrow> Some ((case errors of None \<Rightarrow> [] | Some xs \<Rightarrow> xs) @ [err])))
         else unsubscribe_loop k w subs (index + 1) len hasErrors errors)
      else Some ((hasErrors, errors), w))"
| "call_unsubscribe 0 w sub = None"
| "call_unsubscribe (Suc k) w sub =
     (case sub of
        Ref a \<Rightarrow>
          (case lookup w a of
             Some (Sub s) \<Rightarrow> unsubscribe k w a
           | Some (Plain iu un) \<Rightarrow>
               if isFunction un then invoke k w (body_of un) else Some (Thrown TypeError, w)
           | None \<Rightarrow> Some (Thrown TypeError, w))
      | _ \<Rightarrow> Some (Thrown TypeError, w))"
| "invoke k w [] = Some (Normal, w)"
| "invoke k w (c # cs) =
     (case exec k w c of
        None \<Rightarrow> None
      | Some (Normal, w') \<Rightarrow> invoke k w' cs
      | Some (Thrown e, w') \<Rightarrow> Some (Thrown e, w'))"
| "exec k w (CallUnsubscribe x) = call_unsubscribe k w x"
| "exec k w (CallAdd r x) =
     (case r of
        Ref a \<Rightarrow> (case lookup w a of
                    Some (Sub s) \<Rightarrow> add k w a x
                  | _ \<Rightarrow> Some (Thrown TypeError, w))
      | _ \<Rightarrow> Some (Thrown TypeError, w))"
| "exec k w (CallRemove r x) =
     (case r of
        Ref a \<Rightarrow> (case lookup w a of
                    Some (Sub s) \<Rightarrow> Some (Normal, remove w a x)
                  | _ \<Rightarrow> Some (Thrown TypeError, w))
      | _ \<Rightarrow> Some (Thrown TypeError, w))"
| "exec k w (Throw e) = Some (Thrown e, w)"
| "exec k w (Log m) = Some (Normal, w\<lparr>log := log w @ [m]\<rparr>)"
| "add k w this subscription =
     (case lookup w this of
        Some (Sub this_s) \<Rightarrow>
          if \<not> truthy subscription \<or> subscription = Ref this \<or> subscription = Ref EMPTY
          then Some (Normal, w)
          else if typeof subscription = ''function'' \<or> typeof subscription = ''object'' then
            (let (w', sub) = (if typeof subscription = ''function''
                              then (let (w', a) = new_Subscription w subscription in (w', Ref a))
                              else (w, subscription))
             in if get_isUnsubscribed w' sub \<or> typeof_unsubscribe w' sub \<noteq> ''function''
                then Some (Normal, w')
                else if isUnsubscribed this_s
                then call_unsubscribe k w' sub
                else Some (Normal,
                       store w' this
                         (Sub (this_s\<lparr>priv_subscriptions := Some (children this_s @ [sub])\<rparr>))))
          else Some (Thrown (Unrecognized subscription), w)
      | _ \<Rightarrow> Some (Thrown TypeError, w))"
  by pat_completeness auto

termination
  by (relation "inv_image (less_than <*lex*> less_than <*lex*> less_than)
     (\<lambda>x. case x of
        Inl (Inl (k, w, this)) \<Rightarrow> (k, 5::nat, 0::nat)
      | Inl (Inr (Inl (k, w, subs, index, len, h, e))) \<Rightarrow> (k, 4, nat (len - index))
      | Inl (Inr (Inr (k, w, sub))) \<Rightarrow> (k, 0, 0)
      | Inr (Inl (k, w, cs)) \<Rightarrow> (k, 3, length cs)
      | Inr (Inr (Inl (k, w, c))) \<Rightarrow> (k, 2, 0)
      | Inr (Inr (Inr (k, w, this, x))) \<Rightarrow> (k, 1, 0))") auto

section \<open>The finite-sequence producer (\<^verbatim>\<open>observable/fromArray.ts\<close>)\<close>

text \<open>
  \<^verbatim>\<open>ArrayObservable.subscriber\<close> talks to an \<^verbatim>\<open>Observer\<close>, whose class is not among the
  sources. Its three members are parameters: \<open>obs_next\<close> and \<open>obs_return\<close> transform the
  observer's state, \<open>obs_disposed\<close> reads its flag. The field \<^verbatim>\<open>this.array\<close> is \<open>Some\<close> list
  when \<^verbatim>\<open>Array.isArray\<close> holds of it and \<open>None\<close> otherwise. \<open>subscriber_for\<close> is the
  \<^verbatim>\<open>for\<close> loop of lines 16-18 with \<open>len\<close> read once; the element \<open>array ! i\<close> is only read for
  \<open>i < len = length array\<close>.
\<close>

function subscriber_for ::
  "('o \<Rightarrow> 'a \<Rightarrow> 'o) \<Rightarrow> ('o \<Rightarrow> bool) \<Rightarrow> 'a list \<Rightarrow> nat \<Rightarrow> nat \<Rightarrow> 'o \<Rightarrow> 'o" where
  "subscriber_for obs_next obs_disposed array i len observer =
     (if i < len \<and> \<not> obs_disposed observer
      then subscriber_for obs_next obs_disposed array (i + 1) len (obs_next observer (array ! i))
      else observer)"
  by pat_completeness auto

termination
  by (relation "measure (\<lambda>(obs_next, obs_disposed, array, i, len, observer). len - i)") auto

declare subscriber_for.simps [simp del]

definition subscriber ::
  "('o \<Rightarrow> 'a \<Rightarrow> 'o) \<Rightarrow> ('o \<Rightarrow> bool) \<Rightarrow> ('o \<Rightarrow> 'o) \<Rightarrow> 'a list option \<Rightarrow> 'o \<Rightarrow> 'o" where
  "subscriber obs_next obs_disposed obs_return array observer =
     obs_return
       (case array of
          Some a \<Rightarrow> subscriber_for obs_next obs_disposed a 0 (length a) observer
        | None \<Rightarrow> observer)"

text \<open>The specification's words: emit each element while the flag is false.\<close>

fun emit_while :: "('o \<Rightarrow> 'a \<Rightarrow> 'o) \<Rightarrow> ('o \<Rightarrow> bool) \<Rightarrow> 'a list \<Rightarrow> 'o \<Rightarrow> 'o" where
  "emit_while obs_next obs_disposed [] observer = observer"
| "emit_while obs_next obs_disposed (x # xs) observer =
     (if obs_disposed observer then observer
      else emit_while obs_next obs_disposed xs (obs_next observer x))"

text \<open>An observer that records what it receives and disposes itself after a number of
  elements.\<close>

record counting_observer =
  received :: "int list"
  remaining :: nat
  returned :: bool

definition counting_next :: "counting_observer \<Rightarrow> int \<Rightarrow> counting_observer" where
  "counting_next ob x = ob\<lparr>received := received ob @ [x], remaining := remaining ob - 1\<rparr>"

definition counting_disposed :: "counting_observer \<Rightarrow> bool" where
  "counting_disposed ob = (remaining ob = 0)"

definition counting_return :: "counting_observer \<Rightarrow> counting_observer" where
  "counting_return ob = ob\<lparr>returned := True\<rparr>"

section \<open>The cancellation pass as the specification describes it\<close>

text \<open>The specification's reading of \<^verbatim>\<open>cancel()\<close>, to be compared with \<open>unsubscribe\<close>:
  invoke the teardown if one is present; then cancel every detached child, in insertion
  order, each exactly once and whatever the earlier ones did; then report the own failure
  first, followed by every child's reported failures, an aggregate contributing its inner
  failures and any other thrown value itself.\<close>

definition own_teardown :: "nat \<Rightarrow> world \<Rightarrow> subscription \<Rightarrow> (completion \<times> world) option" where
  "own_teardown k w s =
     (case priv_unsubscribe s of Function b \<Rightarrow> invoke k w b | _ \<Rightarrow> Some (Normal, w))"

fun cancel_each :: "nat \<Rightarrow> world \<Rightarrow> val list \<Rightarrow> (completion list \<times> world) option" where
  "cancel_each k w [] = Some ([], w)"
| "cancel_each k w (c # cs) =
     (case call_unsubscribe k w c of
        None \<Rightarrow> None
      | Some (r, w1) \<Rightarrow>
          (case cancel_each k w1 cs of
             None \<Rightarrow> None
           | Some (rs, w2) \<Rightarrow> Some (r # rs, w2)))"

fun own_failure :: "completion \<Rightarrow> val list" where
  "own_failure Normal = []"
| "own_failure (Thrown e) = [e]"

fun reported :: "completion \<Rightarrow> val list" where
  "reported Normal = []"
| "reported (Thrown (UnsubscriptionError es)) = es"
| "reported (Thrown e) = [e]"

definition failed :: "completion \<Rightarrow> bool" where
  "failed r = (r \<noteq> Normal)"

definition aggregate :: "completion \<Rightarrow> completion list \<Rightarrow> completion" where
  "aggregate r0 rs =
     (if failed r0 \<or> list_ex failed rs
      then Thrown (UnsubscriptionError (own_failure r0 @ concat (map reported rs)))
      else Normal)"

text \<open>A completion is flattened when it carries no aggregate inside its aggregate.\<close>

fun is_aggregate :: "val \<Rightarrow> bool" where
  "is_aggregate (UnsubscriptionError es) = True"
| "is_aggregate _ = False"

fun flattened :: "completion \<Rightarrow> bool" where
  "flattened (Thrown (UnsubscriptionError es)) = (\<not> list_ex is_aggregate es)"
| "flattened _ = True"

text \<open>The state of a node as the specification describes it for the time of the
  teardown call: flagged, and both the teardown reference and the children list gone.\<close>

definition fully_detached :: "world \<Rightarrow> addr \<Rightarrow> bool" where
  "fully_detached w a =
     (case lookup w a of
        Some (Sub s) \<Rightarrow> isUnsubscribed s \<and> priv_unsubscribe s = Undefined \<and> priv_subscriptions s = None
      | _ \<Rightarrow> False)"

text \<open>The inputs of \<^verbatim>\<open>add\<close> that the specification calls invalid: neither \<^verbatim>\<open>null\<close>, nor a
  callable, nor node-like (an object with an \<^verbatim>\<open>unsubscribe\<close> method).\<close>

definition node_like :: "world \<Rightarrow> val \<Rightarrow> bool" where
  "node_like w x = (isObject x \<and> typeof_unsubscribe w x = ''function'')"

definition invalid_by_spec :: "world \<Rightarrow> val \<Rightarrow> bool" where
  "invalid_by_spec w x = (x \<noteq> Null \<and> \<not> isFunction x \<and> \<not> node_like w x)"

text \<open>The inputs on which the code of \<^verbatim>\<open>add\<close> reaches its \<^verbatim>\<open>throw\<close>: truthy, and of a type
  other than \<^verbatim>\<open>'function'\<close> and \<^verbatim>\<open>'object'\<close>.\<close>

definition unrecognized :: "val \<Rightarrow> bool" where
  "unrecognized x = (truthy x \<and> typeof x \<noteq> ''function'' \<and> typeof x \<noteq> ''object'')"

definition raises_InvalidArgument :: "(completion \<times> world) option \<Rightarrow> val \<Rightarrow> bool" where
  "raises_InvalidArgument res x = (map_option fst res = Some (Thrown (Unrecognized x)))"

section \<open>A bound on the depth of nested calls\<close>

text \<open>
  A function value weighs one more than the callables its body passes to \<^verbatim>\<open>add\<close>: each of
  them becomes a new Subscription when the body runs. A live Subscription weighs as much as
  a wrapper of its teardown, a cancelled one nothing. The sum over the heap bounds how
  deeply calls of \<^verbatim>\<open>unsubscribe\<close> can nest, as long as no plain object brings an
  \<^verbatim>\<open>unsubscribe\<close> method of its own (\<open>no_foreign_methods\<close>), which could call itself
  for ever.
\<close>

fun weight :: "val \<Rightarrow> nat"
and weight_stmt :: "stmt \<Rightarrow> nat" where
  "weight (Function b) = Suc (sum_list (map weight_stmt b))"
| "weight _ = 0"
| "weight_stmt (CallAdd r x) = weight x"
| "weight_stmt _ = 0"

definition body_weight :: "val \<Rightarrow> nat" where
  "body_weight f = sum_list (map weight_stmt (body_of f))"

fun potential_obj :: "obj \<Rightarrow> nat" where
  "potential_obj (Sub s) = (if isUnsubscribed s then 0 else Suc (body_weight (priv_unsubscribe s)))"
| "potential_obj (Plain iu un) = 0"

definition potential :: "world \<Rightarrow> nat" where
  "potential w = sum_list (map potential_obj (heap w))"

definition no_foreign_methods :: "world \<Rightarrow> bool" where
  "no_foreign_methods w =
     list_all (\<lambda>ob. case ob of Sub s \<Rightarrow> True | Plain iu un \<Rightarrow> typeof un \<noteq> ''function'') (heap w)"

declare unsubscribe.simps [simp del] unsubscribe_loop.simps [simp del] add.simps [simp del]

section \<open>Reachable worlds and invariants\<close>

text \<open>Every write the operations perform on the world is one of five kinds: flagging and
  detaching a live node, appending a child to a live node, allocating a Subscription,
  deleting one occurrence of a child, and a callback's log entry.\<close>

inductive step :: "world \<Rightarrow> world \<Rightarrow> bool" where
  step_detach: "lookup w a = Some (Sub s) \<Longrightarrow> \<not> isUnsubscribed s \<Longrightarrow> step w (detach w a s)"
| step_push: "lookup w a = Some (Sub s) \<Longrightarrow> \<not> isUnsubscribed s \<Longrightarrow> b < length (heap w) \<Longrightarrow>
     b \<noteq> a \<Longrightarrow> b \<noteq> EMPTY \<Longrightarrow>
     step w (store w a (Sub (s\<lparr>priv_subscriptions := Some (children s @ [Ref b])\<rparr>)))"
| step_new: "step w (fst (new_Subscription w f))"
| step_remove: "lookup w a = Some (Sub s) \<Longrightarrow> priv_subscriptions s = Some cs \<Longrightarrow>
     step w (store w a (Sub (s\<lparr>priv_subscriptions := Some (remove1 x cs)\<rparr>)))"
| step_log: "step w (w\<lparr>log := log w @ [m]\<rparr>)"

text \<open>\<open>cancelled w a\<close>: the object at \<open>a\<close> is a Subscription whose flag is set.\<close>

definition cancelled :: "world \<Rightarrow> addr \<Rightarrow> bool" where
  "cancelled w a = (case lookup w a of Some (Sub s) \<Rightarrow> isUnsubscribed s | _ \<Rightarrow> False)"

definition children_at :: "world \<Rightarrow> addr \<Rightarrow> val list" where
  "children_at w a = (case lookup w a of Some (Sub s) \<Rightarrow> children s | _ \<Rightarrow> [])"

text \<open>The data-model invariant: a cancelled node has no children.\<close>

definition cancelled_childless :: "world \<Rightarrow> bool" where
  "cancelled_childless w =
     list_all (\<lambda>ob. case ob of Sub s \<Rightarrow> \<not> isUnsubscribed s \<or> children s = [] | Plain iu un \<Rightarrow> True)
       (heap w)"

text \<open>The flag is monotonic from \<open>w\<close> to \<open>w'\<close>: every node cancelled in \<open>w\<close> is cancelled
  in \<open>w'\<close>.\<close>

definition flags_monotonic :: "world \<Rightarrow> world \<Rightarrow> bool" where
  "flags_monotonic w w' = list_all (\<lambda>a. \<not> cancelled w a \<or> cancelled w' a) [0..<length (heap w)]"

text \<open>What \<^verbatim>\<open>add\<close> maintains about the children lists: every child is a reference to an
  object of the heap other than the node itself and \<open>EMPTY\<close>.\<close>

definition child_ok :: "world \<Rightarrow> addr \<Rightarrow> val \<Rightarrow> bool" where
  "child_ok w a c = (case c of Ref b \<Rightarrow> b < length (heap w) \<and> b \<noteq> a \<and> b \<noteq> EMPTY | _ \<Rightarrow> False)"

definition children_ok :: "world \<Rightarrow> bool" where
  "children_ok w = list_all (\<lambda>a. list_all (child_ok w a) (children_at w a)) [0..<length (heap w)]"

section \<open>Example worlds\<close>

text \<open>\<open>EMPTY\<close> at 0; a live node at 1 with a teardown and the children 2 and 3; the
  teardown of 2 fails, the teardown of 3 succeeds.\<close>

definition tree_world :: world where
  "tree_world =
     \<lparr>heap =
        [Sub \<lparr>isUnsubscribed = True, priv_unsubscribe = Undefined, priv_subscriptions = None\<rparr>,
         Sub \<lparr>isUnsubscribed = False, priv_unsubscribe = Function [Log ''t0''],
              priv_subscriptions = Some [Ref 2, Ref 3]\<rparr>,
         Sub \<lparr>isUnsubscribed = False, priv_unsubscribe = Function [Log ''t1'', Throw (Error ''e1'')],
              priv_subscriptions = None\<rparr>,
         Sub \<lparr>isUnsubscribed = False, priv_unsubscribe = Function [Log ''t2''],
              priv_subscriptions = None\<rparr>],
      log = []\<rparr>"

definition tree_world_cancelled :: world where
  "tree_world_cancelled =
     \<lparr>heap =
        [Sub \<lparr>isUnsubscribed = True, priv_unsubscribe = Undefined, priv_subscriptions = None\<rparr>,
         Sub \<lparr>isUnsubscribed = True, priv_unsubscribe = Function [Log ''t0''],
              priv_subscriptions = None\<rparr>,
         Sub \<lparr>isUnsubscribed = True, priv_unsubscribe = Function [Log ''t1'', Throw (Error ''e1'')],
              priv_subscriptions = None\<rparr>,
         Sub \<lparr>isUnsubscribed = True, priv_unsubscribe = Function [Log ''t2''],
              priv_subscriptions = None\<rparr>],
      log = [''t0'', ''t1'', ''t2'']\<rparr>"

text \<open>\<open>tree_world_cancelled\<close> after a callable was added to the cancelled node 1: the
  wrapper at 4 was cancelled on the spot and is not a child of 1.\<close>

definition late_world :: world where
  "late_world =
     \<lparr>heap =
        [Sub \<lparr>isUnsubscribed = True, priv_unsubscribe = Undefined, priv_subscriptions = None\<rparr>,
         Sub \<lparr>isUnsubscribed = True, priv_unsubscribe = Function [Log ''t0''],
              priv_subscriptions = None\<rparr>,
         Sub \<lparr>isUnsubscribed = True, priv_unsubscribe = Function [Log ''t1'', Throw (Error ''e1'')],
              priv_subscriptions = None\<rparr>,
         Sub \<lparr>isUnsubscribed = True, priv_unsubscribe = Function [Log ''t2''],
              priv_subscriptions = None\<rparr>,
         Sub \<lparr>isUnsubscribed = True, priv_unsubscribe = Function [Log ''late''],
              priv_subscriptions = None\<rparr>],
      log = [''t0'', ''t1'', ''t2'', ''late'']\<rparr>"

text \<open>\<open>tree_world\<close> after node 1 was flagged and its children were detached.\<close>

definition tree_world_detached :: world where
  "tree_world_detached =
     \<lparr>heap =
        [Sub \<lparr>isUnsubscribed = True, priv_unsubscribe = Undefined, priv_subscriptions = None\<rparr>,
         Sub \<lparr>isUnsubscribed = True, priv_unsubscribe = Function [Log ''t0''],
              priv_subscriptions = None\<rparr>,
         Sub \<lparr>isUnsubscribed = False, priv_unsubscribe = Function [Log ''t1'', Throw (Error ''e1'')],
              priv_subscriptions = None\<rparr>,
         Sub \<lparr>isUnsubscribed = False, priv_unsubscribe = Function [Log ''t2''],
              priv_subscriptions = None\<rparr>],
      log = []\<rparr>"

text \<open>The teardown of node 1 cancels node 2, whose teardown fails.\<close>

definition nested_world :: world where
  "nested_world =
     \<lparr>heap =
        [Sub \<lparr>isUnsubscribed = True, priv_unsubscribe = Undefined, priv_subscriptions = None\<rparr>,
         Sub \<lparr>isUnsubscribed = False, priv_unsubscribe = Function [CallUnsubscribe (Ref 2)],
              priv_subscriptions = None\<rparr>,
         Sub \<lparr>isUnsubscribed = False, priv_unsubscribe = Function [Throw (Error ''boom'')],
              priv_subscriptions = None\<rparr>],
      log = []\<rparr>"

text \<open>The teardown of node 1 and the teardown of its child 2 both cancel node 1 again.\<close>

definition reentrant_world :: world where
  "reentrant_world =
     \<lparr>heap =
        [Sub \<lparr>isUnsubscribed = True, priv_unsubscribe = Undefined, priv_subscriptions = None\<rparr>,
         Sub \<lparr>isUnsubscribed = False,
              priv_unsubscribe = Function [Log ''t0'', CallUnsubscribe (Ref 1), Log ''t0 done''],
              priv_subscriptions = Some [Ref 2]\<rparr>,
         Sub \<lparr>isUnsubscribed = False,
              priv_unsubscribe = Function [CallUnsubscribe (Ref 1), Log ''t1''],
              priv_subscriptions = None\<rparr>],
      log = []\<rparr>"

definition reentrant_world_cancelled :: world where
  "reentrant_world_cancelled =
     \<lparr>heap =
        [Sub \<lparr>isUnsubscribed = True, priv_unsubscribe = Undefined, priv_subscriptions = None\<rparr>,
         Sub \<lparr>isUnsubscribed = True,
              priv_unsubscribe = Function [Log ''t0'', CallUnsubscribe (Ref 1), Log ''t0 done''],
              priv_subscriptions = None\<rparr>,
         Sub \<lparr>isUnsubscribed = True,
              priv_unsubscribe = Function [CallUnsubscribe (Ref 1), Log ''t1''],
              priv_subscriptions = None\<rparr>],
      log = [''t0'', ''t0 done'', ''t1'']\<rparr>"

section \<open>Basic facts about the heap\<close>

lemma lookup_new [simp]:
  "lookup (fst (new_Subscription w f)) a =
     (if a < length (heap w) then lookup w a
      else if a = length (heap w)
      then Some (Sub \<lparr>isUnsubscribed = False, priv_unsubscribe = (if truthy f then f else Undefined),
                      priv_subscriptions = None\<rparr>)
      else None)"
  by (auto simp: lookup_def new_Subscription_def nth_append)

lemma length_heap_new [simp]:
  "length (heap (fst (new_Subscription w f))) = Suc (length (heap w))"
  by (simp add: new_Subscription_def)

lemma snd_new [simp]: "snd (new_Subscription w f) = length (heap w)"
  by (simp add: new_Subscription_def)

lemma log_new [simp]: "log (fst (new_Subscription w f)) = log w"
  by (simp add: new_Subscription_def)

lemma lookup_store [simp]:
  "lookup (store w a ob) b = (if b = a \<and> a < length (heap w) then Some ob else lookup w b)"
  by (auto simp: lookup_def store_def)

lemma length_heap_store [simp]: "length (heap (store w a ob)) = length (heap w)"
  by (simp add: store_def)

lemma log_store [simp]: "log (store w a ob) = log w"
  by (simp add: store_def)

lemma lookup_log [simp]: "lookup (w\<lparr>log := l\<rparr>) a = lookup w a"
  by (simp add: lookup_def)

lemma lookup_Some_less: "lookup w a = Some ob \<Longrightarrow> a < length (heap w)"
  by (auto simp: lookup_def split: if_splits)

lemma lookup_detach [simp]:
  "lookup (detach w a s) b =
     (if b = a \<and> a < length (heap w)
      then Some (Sub (s\<lparr>isUnsubscribed := True, priv_subscriptions := None\<rparr>))
      else lookup w b)"
  by (simp add: detach_def)

lemma length_heap_detach [simp]: "length (heap (detach w a s)) = length (heap w)"
  by (simp add: detach_def)

lemma store_same: "lookup w a = Some ob \<Longrightarrow> store w a ob = w"
  by (auto simp: lookup_def store_def split: if_splits)

lemma typeof_function_cases: "typeof x = ''function'' \<longleftrightarrow> (\<exists>b. x = Function b)"
  by (cases x) auto

lemma typeof_unsubscribe_function:
  "typeof_unsubscribe w x = ''function'' \<Longrightarrow> \<exists>a ob. x = Ref a \<and> lookup w a = Some ob"
  by (auto simp: typeof_unsubscribe_def split: val.splits option.splits)

section \<open>\<^verbatim>\<open>indexOf\<close> and \<^verbatim>\<open>splice\<close>\<close>

lemma indexOf_ge: "- 1 \<le> indexOf xs x"
  by (induction xs) (auto simp: Let_def)

lemma indexOf_absent: "indexOf xs x = - 1 \<longleftrightarrow> x \<notin> set xs"
proof (induction xs)
  case Nil
  show ?case by simp
next
  case (Cons y ys)
  have "- 1 \<le> indexOf ys x" by (rule indexOf_ge)
  with Cons show ?case by (auto simp: Let_def)
qed

lemma splice1_indexOf: "x \<in> set xs \<Longrightarrow> splice1 xs (indexOf xs x) = remove1 x xs"
proof (induction xs)
  case Nil
  then show ?case by simp
next
  case (Cons y ys)
  show ?case
  proof (cases "y = x")
    case True
    then show ?thesis by (simp add: splice1_def)
  next
    case False
    with Cons.prems have mem: "x \<in> set ys" by simp
    then have ne: "indexOf ys x \<noteq> - 1" by (simp add: indexOf_absent)
    have "- 1 \<le> indexOf ys x" by (rule indexOf_ge)
    with ne have nn: "0 \<le> indexOf ys x" by linarith
    then have "nat (indexOf ys x + 1) = Suc (nat (indexOf ys x))" by linarith
    with Cons.IH [OF mem] False ne show ?thesis
      by (simp add: splice1_def Let_def)
  qed
qed

lemma remove_present:
  assumes "lookup w n = Some (Sub s)" and "x \<in> set (children s)"
      and "x \<noteq> Null" "x \<noteq> Undefined" "x \<noteq> Ref n" "x \<noteq> Ref EMPTY"
  shows "remove w n x = store w n (Sub (s\<lparr>priv_subscriptions := Some (remove1 x (children s))\<rparr>))"
proof -
  from assms(2) obtain cs where cs: "priv_subscriptions s = Some cs" "x \<in> set cs"
    by (cases "priv_subscriptions s") (auto simp: children_def)
  then have "indexOf cs x \<noteq> - 1" by (simp add: indexOf_absent)
  with assms cs show ?thesis
    by (simp add: remove_def Let_def splice1_indexOf children_def)
qed

lemma remove_absent:
  assumes "\<And>s. lookup w n = Some (Sub s) \<Longrightarrow> x \<notin> set (children s)"
  shows "remove w n x = w"
  using assms
  by (auto simp: remove_def Let_def children_def indexOf_absent split: option.splits obj.splits)

lemma remove_cases:
  "remove w n x = w \<or>
   (\<exists>s cs. lookup w n = Some (Sub s) \<and> priv_subscriptions s = Some cs \<and>
      remove w n x = store w n (Sub (s\<lparr>priv_subscriptions := Some (remove1 x cs)\<rparr>)))"
proof (cases "\<exists>s. lookup w n = Some (Sub s) \<and> x \<in> set (children s)
                \<and> x \<noteq> Null \<and> x \<noteq> Undefined \<and> x \<noteq> Ref n \<and> x \<noteq> Ref EMPTY")
  case True
  then obtain s where s: "lookup w n = Some (Sub s)" "x \<in> set (children s)"
    "x \<noteq> Null" "x \<noteq> Undefined" "x \<noteq> Ref n" "x \<noteq> Ref EMPTY" by blast
  from s(2) obtain cs where cs: "priv_subscriptions s = Some cs" "children s = cs"
    by (cases "priv_subscriptions s") (auto simp: children_def)
  from remove_present [OF s] cs s(1) show ?thesis by auto
next
  case False
  then have "remove w n x = w"
    by (auto simp: remove_def Let_def children_def indexOf_absent split: option.splits obj.splits)
  then show ?thesis by simp
qed

section \<open>Unfolding \<^verbatim>\<open>add\<close> by the kind of its argument\<close>

lemma add_noop:
  "lookup w this = Some (Sub s) \<Longrightarrow>
   \<not> truthy x \<or> x = Ref this \<or> x = Ref EMPTY \<Longrightarrow> add k w this x = Some (Normal, w)"
  by (simp add: add.simps)

lemma add_function:
  "lookup w this = Some (Sub s) \<Longrightarrow>
   add k w this (Function b) =
     (if isUnsubscribed s
      then call_unsubscribe k (fst (new_Subscription w (Function b))) (Ref (length (heap w)))
      else Some (Normal, store (fst (new_Subscription w (Function b))) this
                   (Sub (s\<lparr>priv_subscriptions := Some (children s @ [Ref (length (heap w))])\<rparr>))))"
  by (simp add: add.simps get_isUnsubscribed_def typeof_unsubscribe_def
        new_Subscription_def lookup_def)

lemma add_object:
  "lookup w this = Some (Sub s) \<Longrightarrow> truthy x \<Longrightarrow> typeof x = ''object'' \<Longrightarrow>
   x \<noteq> Ref this \<Longrightarrow> x \<noteq> Ref EMPTY \<Longrightarrow>
   add k w this x =
     (if get_isUnsubscribed w x \<or> typeof_unsubscribe w x \<noteq> ''function'' then Some (Normal, w)
      else if isUnsubscribed s then call_unsubscribe k w x
      else Some (Normal, store w this (Sub (s\<lparr>priv_subscriptions := Some (children s @ [x])\<rparr>))))"
  by (simp add: add.simps)

lemma add_unrecognized:
  "lookup w this = Some (Sub s) \<Longrightarrow> truthy x \<Longrightarrow> typeof x \<noteq> ''object'' \<Longrightarrow>
   typeof x \<noteq> ''function'' \<Longrightarrow> add k w this x = Some (Thrown (Unrecognized x), w)"
  by (auto simp: add.simps)

lemma add_not_Sub:
  "\<forall>s. lookup w this \<noteq> Some (Sub s) \<Longrightarrow> add k w this x = Some (Thrown TypeError, w)"
  by (auto simp: add.simps split: option.splits obj.splits)

lemma add_argument_cases:
  obtains (noop) "\<not> truthy x \<or> x = Ref this \<or> x = Ref EMPTY"
    | (func) b where "x = Function b"
    | (object) "truthy x" "typeof x = ''object''" "x \<noteq> Ref this" "x \<noteq> Ref EMPTY"
    | (other) "truthy x" "typeof x \<noteq> ''object''" "typeof x \<noteq> ''function''"
  by (cases x) auto

section \<open>Every completed call is a sequence of steps\<close>

lemma call_reach:
  assumes U: "\<And>w a r w'. unsubscribe k w a = Some (r, w') \<Longrightarrow> step\<^sup>*\<^sup>* w w'"
      and I: "\<And>w b r w'. invoke k w b = Some (r, w') \<Longrightarrow> step\<^sup>*\<^sup>* w w'"
      and "call_unsubscribe (Suc k) w sub = Some (r, w')"
  shows "step\<^sup>*\<^sup>* w w'"
  using assms(3) by (auto split: val.splits option.splits obj.splits if_splits intro: U I)

lemma add_reach:
  assumes C0: "\<forall>w x r w'. call_unsubscribe k w x = Some (r, w') \<longrightarrow> step\<^sup>*\<^sup>* w w'"
      and A: "add k w this x = Some (r, w')"
  shows "step\<^sup>*\<^sup>* w w'"
proof (cases "\<exists>s. lookup w this = Some (Sub s)")
  case False
  with A show ?thesis by (simp add: add_not_Sub)
next
  case True
  then obtain s where s: "lookup w this = Some (Sub s)" by blast
  have this_less: "this < length (heap w)" using s by (rule lookup_Some_less)
  show ?thesis
  proof (cases rule: add_argument_cases [of x this])
    case noop
    with A s show ?thesis by (simp add: add_noop)
  next
    case (func b)
    let ?w1 = "fst (new_Subscription w x)"
    have new: "step w ?w1" by (rule step_new)
    show ?thesis
    proof (cases "isUnsubscribed s")
      case True
      with A s func have "call_unsubscribe k ?w1 (Ref (length (heap w))) = Some (r, w')"
        by (simp add: add_function)
      from C0 [rule_format, OF this] new show ?thesis by simp
    next
      case False
      have "step ?w1 (store ?w1 this
               (Sub (s\<lparr>priv_subscriptions := Some (children s @ [Ref (length (heap w))])\<rparr>)))"
        using s this_less False
        by (intro step_push) (auto simp: EMPTY_def)
      with A s func False new show ?thesis by (simp add: add_function)
    qed
  next
    case object
    note eq = add_object [OF s object, of k]
    show ?thesis
    proof (cases "get_isUnsubscribed w x \<or> typeof_unsubscribe w x \<noteq> ''function''")
      case True
      with A eq show ?thesis by auto
    next
      case nb: False
      then obtain b ob where b: "x = Ref b" "lookup w b = Some ob"
        using typeof_unsubscribe_function by blast
      show ?thesis
      proof (cases "isUnsubscribed s")
        case True
        with A eq nb have "call_unsubscribe k w x = Some (r, w')" by simp
        then show ?thesis by (rule C0 [rule_format])
      next
        case False
        have "step w (store w this (Sub (s\<lparr>priv_subscriptions := Some (children s @ [Ref b])\<rparr>)))"
          using s False b object by (intro step_push) (auto dest: lookup_Some_less)
        with A eq nb False b show ?thesis by auto
      qed
    qed
  next
    case other
    with A s show ?thesis by (simp add: add_unrecognized)
  qed
qed

lemma exec_reach:
  assumes C0: "\<forall>w x r w'. call_unsubscribe k w x = Some (r, w') \<longrightarrow> step\<^sup>*\<^sup>* w w'"
      and E: "exec k w c = Some (r, w')"
  shows "step\<^sup>*\<^sup>* w w'"
proof (cases c)
  case (CallUnsubscribe x)
  with E C0 show ?thesis by simp
next
  case (CallAdd t x)
  show ?thesis
  proof (cases "\<exists>a s. t = Ref a \<and> lookup w a = Some (Sub s)")
    case True
    with E CallAdd have "\<exists>a. add k w a x = Some (r, w')" by auto
    then show ?thesis using add_reach C0 by blast
  next
    case False
    with E CallAdd have "w' = w" by (auto split: val.splits option.splits obj.splits)
    then show ?thesis by simp
  qed
next
  case (CallRemove t x)
  show ?thesis
  proof (cases "\<exists>a s. t = Ref a \<and> lookup w a = Some (Sub s)")
    case True
    then obtain a s where a: "t = Ref a" "lookup w a = Some (Sub s)" by blast
    with E CallRemove have w': "w' = remove w a x" by simp
    from remove_cases [of w a x] show ?thesis
    proof
      assume "remove w a x = w"
      with w' show ?thesis by simp
    next
      assume "\<exists>s cs. lookup w a = Some (Sub s) \<and> priv_subscriptions s = Some cs \<and>
        remove w a x = store w a (Sub (s\<lparr>priv_subscriptions := Some (remove1 x cs)\<rparr>))"
      then have "step w (remove w a x)" by (auto intro: step_remove)
      with w' show ?thesis by (simp add: r_into_rtranclp)
    qed
  next
    case False
    with E CallRemove have "w' = w" by (auto split: val.splits option.splits obj.splits)
    then show ?thesis by simp
  qed
next
  case (Throw e)
  with E show ?thesis by simp
next
  case (Log m)
  with E show ?thesis by (auto intro: step_log)
qed

lemma invoke_reach:
  assumes C0: "\<forall>w x r w'. call_unsubscribe k w x = Some (r, w') \<longrightarrow> step\<^sup>*\<^sup>* w w'"
  shows "invoke k w cs = Some (r, w') \<Longrightarrow> step\<^sup>*\<^sup>* w w'"
proof (induction cs arbitrary: w)
  case Nil
  then show ?case by simp
next
  case (Cons c cs)
  from Cons.prems obtain r1 w1 where e: "exec k w c = Some (r1, w1)"
    by (auto split: option.splits)
  have 1: "step\<^sup>*\<^sup>* w w1" using C0 e by (rule exec_reach)
  show ?case
  proof (cases r1)
    case Normal
    with Cons.prems e have "invoke k w1 cs = Some (r, w')" by simp
    from Cons.IH [OF this] 1 show ?thesis by simp
  next
    case (Thrown x)
    with Cons.prems e 1 show ?thesis by simp
  qed
qed

lemma loop_reach:
  assumes C0: "\<forall>w x r w'. call_unsubscribe k w x = Some (r, w') \<longrightarrow> step\<^sup>*\<^sup>* w w'"
  shows "unsubscribe_loop k w subs index len h e = Some (r, w') \<Longrightarrow> step\<^sup>*\<^sup>* w w'"
proof (induction "nat (len - index)" arbitrary: index w h e)
  case 0
  then show ?case by (simp add: unsubscribe_loop.simps)
next
  case (Suc n)
  from Suc.hyps(2) have n: "n = nat (len - (index + 1))" by simp
  note IH = Suc.hyps(1) [OF n]
  show ?case
  proof (cases "index + 1 < len")
    case False
    with Suc.prems show ?thesis by (simp add: unsubscribe_loop.simps)
  next
    case True
    from Suc.prems True obtain w1 h1 e1 where
      1: "step\<^sup>*\<^sup>* w w1" and 2: "unsubscribe_loop k w1 subs (index + 1) len h1 e1 = Some (r, w')"
      by (subst (asm) unsubscribe_loop.simps)
         (auto split: if_splits option.splits completion.splits dest!: C0 [rule_format])
    from IH [OF 2] 1 show ?thesis by simp
  qed
qed

text \<open>A call on a live node first detaches; everything else happens after that.\<close>

lemma unsubscribe_live_reach:
  assumes C0: "\<forall>w x r w'. call_unsubscribe k w x = Some (r, w') \<longrightarrow> step\<^sup>*\<^sup>* w w'"
      and s: "lookup w this = Some (Sub s)" "\<not> isUnsubscribed s"
      and U: "unsubscribe k w this = Some (r, w')"
  shows "step\<^sup>*\<^sup>* (detach w this s) w'"
proof -
  let ?w1 = "detach w this s"
  from U s obtain h e w2 where
    T: "(if isFunction (priv_unsubscribe s)
         then (case invoke k ?w1 (body_of (priv_unsubscribe s)) of
                 None \<Rightarrow> None
               | Some (Normal, w2) \<Rightarrow> Some ((False, None), w2)
               | Some (Thrown e, w2) \<Rightarrow> Some ((True, Some [e]), w2))
         else Some ((False, None), ?w1)) = Some ((h, e), w2)"
    and L: "\<exists>h' e'. (if isArray (priv_subscriptions s)
         then unsubscribe_loop k w2 (the (priv_subscriptions s)) (-1)
                (int (length (the (priv_subscriptions s)))) h e
         else Some ((h, e), w2)) = Some ((h', e'), w')"
    by (auto simp: unsubscribe.simps Let_def split: option.splits prod.splits)
  note ir = invoke_reach [OF C0] and lr = loop_reach [OF C0]
  from T have 1: "step\<^sup>*\<^sup>* ?w1 w2"
    by (auto split: if_splits option.splits completion.splits intro: ir)
  from L have 2: "step\<^sup>*\<^sup>* w2 w'"
    by (auto split: if_splits intro: lr)
  from 1 2 show ?thesis by simp
qed

lemma unsubscribe_not_live:
  "\<not> (\<exists>s. lookup w this = Some (Sub s) \<and> \<not> isUnsubscribed s) \<Longrightarrow>
   unsubscribe k w this = Some (r, w') \<Longrightarrow> w' = w"
  by (auto simp: unsubscribe.simps split: option.splits obj.splits if_splits)

lemma unsubscribe_reach:
  assumes C0: "\<forall>w x r w'. call_unsubscribe k w x = Some (r, w') \<longrightarrow> step\<^sup>*\<^sup>* w w'"
      and U: "unsubscribe k w this = Some (r, w')"
  shows "step\<^sup>*\<^sup>* w w'"
proof (cases "\<exists>s. lookup w this = Some (Sub s) \<and> \<not> isUnsubscribed s")
  case False
  from unsubscribe_not_live [OF this U] show ?thesis by simp
next
  case True
  then obtain s where s: "lookup w this = Some (Sub s)" "\<not> isUnsubscribed s" by blast
  have "step w (detach w this s)" using s by (rule step_detach)
  with unsubscribe_live_reach [OF C0 s U] show ?thesis by simp
qed

lemma reach_all:
  "\<forall>w x r w'. call_unsubscribe k w x = Some (r, w') \<longrightarrow> step\<^sup>*\<^sup>* w w'"
proof (induction k)
  case 0
  show ?case by simp
next
  case (Suc k)
  show ?case
  proof (intro allI impI)
    fix w x r w'
    assume "call_unsubscribe (Suc k) w x = Some (r, w')"
    then show "step\<^sup>*\<^sup>* w w'"
    proof (rule call_reach [rotated 2])
      show "\<And>w a r w'. unsubscribe k w a = Some (r, w') \<Longrightarrow> step\<^sup>*\<^sup>* w w'"
        using unsubscribe_reach [OF Suc] .
      show "\<And>w b r w'. invoke k w b = Some (r, w') \<Longrightarrow> step\<^sup>*\<^sup>* w w'"
        using invoke_reach [OF Suc] .
    qed
  qed
qed

lemma call_unsubscribe_steps: "call_unsubscribe k w x = Some (r, w') \<Longrightarrow> step\<^sup>*\<^sup>* w w'"
  using reach_all by blast

lemmas unsubscribe_steps = unsubscribe_reach [OF reach_all]
  and unsubscribe_live_steps = unsubscribe_live_reach [OF reach_all]
  and add_steps = add_reach [OF reach_all]
  and invoke_steps = invoke_reach [OF reach_all]
  and exec_steps = exec_reach [OF reach_all]
  and loop_steps = loop_reach [OF reach_all]

lemma remove_steps: "step\<^sup>*\<^sup>* w (remove w a x)"
proof -
  from remove_cases [of w a x] show ?thesis
  proof
    assume "remove w a x = w"
    then show ?thesis by simp
  next
    assume "\<exists>s cs. lookup w a = Some (Sub s) \<and> priv_subscriptions s = Some cs \<and>
      remove w a x = store w a (Sub (s\<lparr>priv_subscriptions := Some (remove1 x cs)\<rparr>))"
    then have "step w (remove w a x)" by (auto intro: step_remove)
    then show ?thesis by (rule r_into_rtranclp)
  qed
qed

section \<open>A call on a live node\<close>

lemma unsubscribe_live:
  assumes "lookup w n = Some (Sub s)" and "\<not> isUnsubscribed s"
  shows "unsubscribe k w n =
     (case own_teardown k (detach w n s) s of
        None \<Rightarrow> None
      | Some (r0, w1) \<Rightarrow>
          (case unsubscribe_loop k w1 (children s) (- 1) (int (length (children s))) (failed r0)
                  (case r0 of Normal \<Rightarrow> None | Thrown e \<Rightarrow> Some [e]) of
             None \<Rightarrow> None
           | Some ((h, es), w2) \<Rightarrow>
               Some (if h then Thrown (UnsubscriptionError (case es of None \<Rightarrow> [] | Some xs \<Rightarrow> xs))
                     else Normal, w2)))"
proof -
  have T: "(if isFunction (priv_unsubscribe s)
            then (case invoke k (detach w n s) (body_of (priv_unsubscribe s)) of
                    None \<Rightarrow> None
                  | Some (Normal, w2) \<Rightarrow> Some ((False, None), w2)
                  | Some (Thrown e, w2) \<Rightarrow> Some ((True, Some [e]), w2))
            else Some ((False, None), detach w n s))
         = (case own_teardown k (detach w n s) s of
              None \<Rightarrow> None
            | Some (r0, w1) \<Rightarrow>
                Some ((failed r0, case r0 of Normal \<Rightarrow> None | Thrown e \<Rightarrow> Some [e]), w1))"
    by (cases "priv_unsubscribe s")
       (auto simp: own_teardown_def isFunction_def failed_def split: option.splits completion.splits)
  have L: "(if isArray (priv_subscriptions s)
            then unsubscribe_loop k w1 (the (priv_subscriptions s)) (- 1)
                   (int (length (the (priv_subscriptions s)))) h e
            else Some ((h, e), w1))
         = unsubscribe_loop k w1 (children s) (- 1) (int (length (children s))) h e" for w1 h e
  proof (cases "priv_subscriptions s")
    case None
    then show ?thesis
      by (subst unsubscribe_loop.simps) (simp add: isArray_def children_def)
  next
    case (Some cs)
    then show ?thesis by (simp add: isArray_def children_def)
  qed
  have "unsubscribe k w n =
     (case (if isFunction (priv_unsubscribe s)
            then (case invoke k (detach w n s) (body_of (priv_unsubscribe s)) of
                    None \<Rightarrow> None
                  | Some (Normal, w2) \<Rightarrow> Some ((False, None), w2)
                  | Some (Thrown e, w2) \<Rightarrow> Some ((True, Some [e]), w2))
            else Some ((False, None), detach w n s)) of
        None \<Rightarrow> None
      | Some ((hasErrors, errors), w2) \<Rightarrow>
          (case (if isArray (priv_subscriptions s)
                 then unsubscribe_loop k w2 (the (priv_subscriptions s)) (- 1)
                        (int (length (the (priv_subscriptions s)))) hasErrors errors
                 else Some ((hasErrors, errors), w2)) of
             None \<Rightarrow> None
           | Some ((hasErrors', errors'), w3) \<Rightarrow>
               Some (if hasErrors'
                     then Thrown (UnsubscriptionError (case errors' of None \<Rightarrow> [] | Some es \<Rightarrow> es))
                     else Normal, w3)))"
    using assms by (subst unsubscribe.simps) simp
  then show ?thesis
    unfolding T L by (simp split: option.splits)
qed


section \<open>The invariants, stated through \<open>lookup\<close>\<close>

lemma cancelled_childless_iff:
  "cancelled_childless w \<longleftrightarrow>
     (\<forall>a s. lookup w a = Some (Sub s) \<longrightarrow> isUnsubscribed s \<longrightarrow> children s = [])"
proof
  assume inv: "cancelled_childless w"
  show "\<forall>a s. lookup w a = Some (Sub s) \<longrightarrow> isUnsubscribed s \<longrightarrow> children s = []"
  proof (intro allI impI)
    fix a s
    assume "lookup w a = Some (Sub s)" and "isUnsubscribed s"
    then have "a < length (heap w)" "heap w ! a = Sub s"
      by (auto simp: lookup_def split: if_splits)
    with inv \<open>isUnsubscribed s\<close> show "children s = []"
      by (auto simp: cancelled_childless_def list_all_length)
  qed
next
  assume r: "\<forall>a s. lookup w a = Some (Sub s) \<longrightarrow> isUnsubscribed s \<longrightarrow> children s = []"
  show "cancelled_childless w"
    unfolding cancelled_childless_def list_all_length
  proof (intro allI impI)
    fix a
    assume "a < length (heap w)"
    then have "lookup w a = Some (heap w ! a)" by (simp add: lookup_def)
    with r show "case heap w ! a of Sub s \<Rightarrow> \<not> isUnsubscribed s \<or> children s = []
                 | Plain iu un \<Rightarrow> True"
      by (cases "heap w ! a") auto
  qed
qed

lemma cancelled_iff: "cancelled w a \<longleftrightarrow> (\<exists>s. lookup w a = Some (Sub s) \<and> isUnsubscribed s)"
  by (auto simp: cancelled_def split: option.splits obj.splits)

lemma flags_monotonic_iff: "flags_monotonic w w' \<longleftrightarrow> (\<forall>a. cancelled w a \<longrightarrow> cancelled w' a)"
proof -
  have "cancelled w a \<Longrightarrow> a < length (heap w)" for a
    by (auto simp: cancelled_iff dest: lookup_Some_less)
  then show ?thesis
    by (auto simp: flags_monotonic_def list_all_iff)
qed

lemma children_at_Sub [simp]: "lookup w a = Some (Sub s) \<Longrightarrow> children_at w a = children s"
  by (simp add: children_at_def)

lemma children_ok_iff:
  "children_ok w \<longleftrightarrow>
     (\<forall>a s c. lookup w a = Some (Sub s) \<longrightarrow> c \<in> set (children s) \<longrightarrow> child_ok w a c)"
proof
  assume ok: "children_ok w"
  show "\<forall>a s c. lookup w a = Some (Sub s) \<longrightarrow> c \<in> set (children s) \<longrightarrow> child_ok w a c"
  proof (intro allI impI)
    fix a s c
    assume s: "lookup w a = Some (Sub s)" and c: "c \<in> set (children s)"
    from s have "a < length (heap w)" by (rule lookup_Some_less)
    with ok have "list_all (child_ok w a) (children_at w a)"
      by (simp add: children_ok_def list_all_iff)
    with s c show "child_ok w a c" by (simp add: list_all_iff)
  qed
next
  assume r: "\<forall>a s c. lookup w a = Some (Sub s) \<longrightarrow> c \<in> set (children s) \<longrightarrow> child_ok w a c"
  show "children_ok w"
    unfolding children_ok_def list_all_iff
  proof (intro ballI)
    fix a c
    assume c: "c \<in> set (children_at w a)"
    then obtain s where "lookup w a = Some (Sub s)"
      by (cases "lookup w a") (auto simp: children_at_def split: obj.splits)
    with r c show "child_ok w a c" by simp
  qed
qed

lemma child_ok_iff: "child_ok w a c \<longleftrightarrow> (\<exists>b. c = Ref b \<and> b < length (heap w) \<and> b \<noteq> a \<and> b \<noteq> EMPTY)"
  by (cases c) (auto simp: child_ok_def)

lemma children_simps [simp]:
  "children (s\<lparr>priv_subscriptions := None\<rparr>) = []"
  "children (s\<lparr>priv_subscriptions := Some cs\<rparr>) = cs"
  "children (s\<lparr>isUnsubscribed := b\<rparr>) = children s"
  "children \<lparr>isUnsubscribed = b, priv_unsubscribe = f, priv_subscriptions = None\<rparr> = []"
  by (simp_all add: children_def)

section \<open>What one step preserves\<close>

lemma step_length: "step w w' \<Longrightarrow> length (heap w) \<le> length (heap w')"
  by (induction rule: step.induct) simp_all

lemma step_Sub:
  assumes "step w w'" and "lookup w a = Some (Sub s)"
  shows "\<exists>s'. lookup w' a = Some (Sub s') \<and> (isUnsubscribed s \<longrightarrow> isUnsubscribed s')
              \<and> priv_unsubscribe s' = priv_unsubscribe s"
  using assms
  by (induction rule: step.induct) (auto dest: lookup_Some_less)

lemma step_Plain:
  assumes "step w w'" and "lookup w a = Some (Plain iu un)"
  shows "lookup w' a = Some (Plain iu un)"
  using assms
  by (induction rule: step.induct) (auto dest: lookup_Some_less)

lemma step_log_extends: "step w w' \<Longrightarrow> \<exists>l. log w' = log w @ l"
  by (induction rule: step.induct) (simp_all add: detach_def)

lemma step_cancelled_childless:
  assumes "step w w'" and "cancelled_childless w"
  shows "cancelled_childless w'"
  using assms unfolding cancelled_childless_iff
proof (induction rule: step.induct)
  case (step_remove w a s cs x)
  have "cs = []" if "isUnsubscribed s"
  proof -
    from step_remove that have "children s = []" by blast
    with step_remove show ?thesis by (simp add: children_def)
  qed
  with step_remove show ?case by (auto split: if_splits)
qed (auto split: if_splits)

lemma step_children_ok:
  assumes "step w w'" and "children_ok w"
  shows "children_ok w'"
  using assms unfolding children_ok_iff child_ok_iff
proof (induction rule: step.induct)
  case (step_detach w a s)
  then show ?case by (auto split: if_splits)
next
  case (step_push w a s b)
  then show ?case by (auto split: if_splits)
next
  case (step_new w f)
  then show ?case by (fastforce split: if_splits)
next
  case (step_remove w a s cs x)
  have "set (remove1 x cs) \<subseteq> set cs" by (rule set_remove1_subset)
  moreover from step_remove have "children s = cs" by (simp add: children_def)
  ultimately show ?case using step_remove by (auto split: if_splits)
next
  case (step_log w m)
  then show ?case by (simp add: lookup_def)
qed

section \<open>What a sequence of steps preserves\<close>

lemma steps_length: "step\<^sup>*\<^sup>* w w' \<Longrightarrow> length (heap w) \<le> length (heap w')"
  by (induction rule: rtranclp_induct) (auto dest: step_length)

lemma steps_Sub:
  assumes "step\<^sup>*\<^sup>* w w'" and "lookup w a = Some (Sub s)"
  shows "\<exists>s'. lookup w' a = Some (Sub s') \<and> (isUnsubscribed s \<longrightarrow> isUnsubscribed s')
              \<and> priv_unsubscribe s' = priv_unsubscribe s"
  using assms
proof (induction rule: rtranclp_induct)
  case base
  then show ?case by simp
next
  case (step y z)
  then obtain s1 where s1: "lookup y a = Some (Sub s1)"
    "isUnsubscribed s \<longrightarrow> isUnsubscribed s1" "priv_unsubscribe s1 = priv_unsubscribe s"
    by blast
  from step_Sub [OF step.hyps(2) s1(1)] s1 show ?case by auto
qed

lemma steps_cancelled: "step\<^sup>*\<^sup>* w w' \<Longrightarrow> cancelled w a \<Longrightarrow> cancelled w' a"
  unfolding cancelled_iff using steps_Sub by blast

lemma steps_flags_monotonic: "step\<^sup>*\<^sup>* w w' \<Longrightarrow> flags_monotonic w w'"
  unfolding flags_monotonic_iff using steps_cancelled by blast

lemma steps_cancelled_childless:
  "step\<^sup>*\<^sup>* w w' \<Longrightarrow> cancelled_childless w \<Longrightarrow> cancelled_childless w'"
  by (induction rule: rtranclp_induct) (auto intro: step_cancelled_childless)

lemma steps_children_ok: "step\<^sup>*\<^sup>* w w' \<Longrightarrow> children_ok w \<Longrightarrow> children_ok w'"
  by (induction rule: rtranclp_induct) (auto intro: step_children_ok)

section \<open>The potential never grows, and bounds the depth of calls\<close>

lemma sum_list_update:
  "a < length xs \<Longrightarrow>
   sum_list (map f (xs[a := y])) + f (xs ! a) = sum_list (map f xs) + (f y :: nat)"
proof (induction xs arbitrary: a)
  case Nil
  then show ?case by simp
next
  case (Cons x xs)
  then show ?case by (cases a) auto
qed

lemma potential_store:
  "lookup w a = Some ob \<Longrightarrow>
   potential (store w a ob') + potential_obj ob = potential w + potential_obj ob'"
  by (auto simp: potential_def store_def lookup_def sum_list_update split: if_splits)

lemma potential_new [simp]:
  "potential (fst (new_Subscription w (Function b))) = potential w + weight (Function b)"
  by (simp add: potential_def new_Subscription_def body_weight_def)

lemma potential_log [simp]: "potential (w\<lparr>log := l\<rparr>) = potential w"
  by (simp add: potential_def)

lemma potential_detach:
  "lookup w a = Some (Sub s) \<Longrightarrow> \<not> isUnsubscribed s \<Longrightarrow>
   Suc (potential (detach w a s) + body_weight (priv_unsubscribe s)) = potential w"
  using potential_store [of w a "Sub s" "Sub (s\<lparr>isUnsubscribed := True, priv_subscriptions := None\<rparr>)"]
  by (simp add: detach_def)

lemma potential_children:
  "lookup w a = Some (Sub s) \<Longrightarrow>
   potential (store w a (Sub (s\<lparr>priv_subscriptions := cs\<rparr>))) = potential w"
  using potential_store [of w a "Sub s" "Sub (s\<lparr>priv_subscriptions := cs\<rparr>)"]
  by (cases "isUnsubscribed s") simp_all

lemma potential_remove [simp]: "potential (remove w a x) = potential w"
  using remove_cases [of w a x] by (auto simp: potential_children)

lemma no_foreign_methods_iff:
  "no_foreign_methods w \<longleftrightarrow>
     (\<forall>a iu un. lookup w a = Some (Plain iu un) \<longrightarrow> typeof un \<noteq> ''function'')"
proof
  assume nf: "no_foreign_methods w"
  show "\<forall>a iu un. lookup w a = Some (Plain iu un) \<longrightarrow> typeof un \<noteq> ''function''"
  proof (intro allI impI)
    fix a iu un
    assume "lookup w a = Some (Plain iu un)"
    then have "a < length (heap w)" "heap w ! a = Plain iu un"
      by (auto simp: lookup_def split: if_splits)
    with nf show "typeof un \<noteq> ''function''"
      by (auto simp: no_foreign_methods_def list_all_length)
  qed
next
  assume r: "\<forall>a iu un. lookup w a = Some (Plain iu un) \<longrightarrow> typeof un \<noteq> ''function''"
  show "no_foreign_methods w"
    unfolding no_foreign_methods_def list_all_length
  proof (intro allI impI)
    fix a
    assume "a < length (heap w)"
    then have "lookup w a = Some (heap w ! a)" by (simp add: lookup_def)
    with r show "case heap w ! a of Sub s \<Rightarrow> True | Plain iu un \<Rightarrow> typeof un \<noteq> ''function''"
      by (cases "heap w ! a") auto
  qed
qed

lemma step_no_foreign_methods:
  assumes "step w w'" and "no_foreign_methods w"
  shows "no_foreign_methods w'"
  using assms unfolding no_foreign_methods_iff
  by (induction rule: step.induct) (auto split: if_splits)

lemma steps_no_foreign_methods:
  "step\<^sup>*\<^sup>* w w' \<Longrightarrow> no_foreign_methods w \<Longrightarrow> no_foreign_methods w'"
  by (induction rule: rtranclp_induct) (auto intro: step_no_foreign_methods)

subsection \<open>The potential does not grow\<close>

lemma add_potential:
  assumes C0: "\<forall>w x r w'. no_foreign_methods w \<longrightarrow> call_unsubscribe k w x = Some (r, w')
                 \<longrightarrow> potential w' \<le> potential w"
      and nf: "no_foreign_methods w"
      and A: "add k w this x = Some (r, w')"
  shows "potential w' \<le> potential w + weight x"
proof (cases "\<exists>s. lookup w this = Some (Sub s)")
  case False
  with A show ?thesis by (simp add: add_not_Sub)
next
  case True
  then obtain s where s: "lookup w this = Some (Sub s)" by blast
  have this_less: "this < length (heap w)" using s by (rule lookup_Some_less)
  show ?thesis
  proof (cases rule: add_argument_cases [of x this])
    case noop
    with A s show ?thesis by (simp add: add_noop)
  next
    case (func b)
    let ?w1 = "fst (new_Subscription w x)"
    have p1: "potential ?w1 = potential w + weight x" using func by simp
    have nf1: "no_foreign_methods ?w1"
      using step_no_foreign_methods [OF step_new nf] .
    show ?thesis
    proof (cases "isUnsubscribed s")
      case True
      with A s func have "call_unsubscribe k ?w1 (Ref (length (heap w))) = Some (r, w')"
        by (simp add: add_function)
      with C0 nf1 have "potential w' \<le> potential ?w1" by blast
      with p1 show ?thesis by simp
    next
      case False
      from s this_less have "lookup ?w1 this = Some (Sub s)" by simp
      from potential_children [OF this] have
        "potential (store ?w1 this (Sub (s\<lparr>priv_subscriptions :=
            Some (children s @ [Ref (length (heap w))])\<rparr>))) = potential ?w1" .
      moreover from A s func False have
        "w' = store ?w1 this (Sub (s\<lparr>priv_subscriptions :=
            Some (children s @ [Ref (length (heap w))])\<rparr>))"
        by (simp add: add_function)
      ultimately show ?thesis using p1 by simp
    qed
  next
    case object
    note eq = add_object [OF s object, of k]
    show ?thesis
    proof (cases "get_isUnsubscribed w x \<or> typeof_unsubscribe w x \<noteq> ''function''")
      case True
      with A eq show ?thesis by auto
    next
      case nb: False
      show ?thesis
      proof (cases "isUnsubscribed s")
        case True
        with A eq nb have "call_unsubscribe k w x = Some (r, w')" by simp
        with C0 nf have "potential w' \<le> potential w" by blast
        then show ?thesis by simp
      next
        case False
        with A eq nb potential_children [OF s] show ?thesis by auto
      qed
    qed
  next
    case other
    with A s show ?thesis by (simp add: add_unrecognized)
  qed
qed

lemma exec_potential:
  assumes C0: "\<forall>w x r w'. no_foreign_methods w \<longrightarrow> call_unsubscribe k w x = Some (r, w')
                 \<longrightarrow> potential w' \<le> potential w"
      and nf: "no_foreign_methods w"
      and E: "exec k w c = Some (r, w')"
  shows "potential w' \<le> potential w + weight_stmt c"
proof (cases c)
  case (CallUnsubscribe x)
  with E C0 nf have "potential w' \<le> potential w" by auto
  then show ?thesis by simp
next
  case (CallAdd t x)
  show ?thesis
  proof (cases "\<exists>a s. t = Ref a \<and> lookup w a = Some (Sub s)")
    case True
    with E CallAdd obtain a where "add k w a x = Some (r, w')" by auto
    from add_potential [OF C0 nf this] CallAdd show ?thesis by simp
  next
    case False
    with E CallAdd have "w' = w" by (auto split: val.splits option.splits obj.splits)
    then show ?thesis by simp
  qed
next
  case (CallRemove t x)
  with E have "potential w' = potential w"
    by (auto split: val.splits option.splits obj.splits)
  then show ?thesis by simp
next
  case (Throw e)
  with E show ?thesis by simp
next
  case (Log m)
  with E show ?thesis by auto
qed

lemma invoke_potential:
  assumes C0: "\<forall>w x r w'. no_foreign_methods w \<longrightarrow> call_unsubscribe k w x = Some (r, w')
                 \<longrightarrow> potential w' \<le> potential w"
  shows "no_foreign_methods w \<Longrightarrow> invoke k w cs = Some (r, w') \<Longrightarrow>
         potential w' \<le> potential w + sum_list (map weight_stmt cs)"
proof (induction cs arbitrary: w)
  case Nil
  then show ?case by simp
next
  case (Cons c cs)
  from Cons.prems obtain r1 w1 where e: "exec k w c = Some (r1, w1)"
    by (auto split: option.splits)
  have 1: "potential w1 \<le> potential w + weight_stmt c"
    using C0 Cons.prems(1) e by (rule exec_potential)
  have nf1: "no_foreign_methods w1"
    using steps_no_foreign_methods [OF exec_steps [OF e] Cons.prems(1)] .
  show ?case
  proof (cases r1)
    case Normal
    with Cons.prems e have "invoke k w1 cs = Some (r, w')" by simp
    from Cons.IH [OF nf1 this] 1 show ?thesis by simp
  next
    case (Thrown x)
    with Cons.prems e 1 show ?thesis by simp
  qed
qed

lemma loop_potential:
  assumes C0: "\<forall>w x r w'. no_foreign_methods w \<longrightarrow> call_unsubscribe k w x = Some (r, w')
                 \<longrightarrow> potential w' \<le> potential w"
  shows "no_foreign_methods w \<Longrightarrow> unsubscribe_loop k w subs index len h e = Some (r, w') \<Longrightarrow>
         potential w' \<le> potential w"
proof (induction "nat (len - index)" arbitrary: index w h e)
  case 0
  then show ?case by (simp add: unsubscribe_loop.simps)
next
  case (Suc n)
  from Suc.hyps(2) have n: "n = nat (len - (index + 1))" by simp
  note IH = Suc.hyps(1) [OF n]
  show ?case
  proof (cases "index + 1 < len")
    case False
    with Suc.prems show ?thesis by (simp add: unsubscribe_loop.simps)
  next
    case True
    show ?thesis
    proof (cases "isObject (subs ! nat (index + 1))")
      case False
      with Suc.prems True have "unsubscribe_loop k w subs (index + 1) len h e = Some (r, w')"
        by (subst (asm) unsubscribe_loop.simps) simp
      from IH [OF Suc.prems(1) this] show ?thesis .
    next
      case ob: True
      from Suc.prems True ob obtain r1 w1 h1 e1 where
        c: "call_unsubscribe k w (subs ! nat (index + 1)) = Some (r1, w1)" and
        l: "unsubscribe_loop k w1 subs (index + 1) len h1 e1 = Some (r, w')"
        by (subst (asm) unsubscribe_loop.simps)
           (auto split: option.splits completion.splits)
      from C0 Suc.prems(1) c have 1: "potential w1 \<le> potential w" by blast
      have "no_foreign_methods w1"
        using steps_no_foreign_methods [OF call_unsubscribe_steps [OF c] Suc.prems(1)] .
      from IH [OF this l] 1 show ?thesis by simp
    qed
  qed
qed

lemma unsubscribe_live_potential:
  assumes C0: "\<forall>w x r w'. no_foreign_methods w \<longrightarrow> call_unsubscribe k w x = Some (r, w')
                 \<longrightarrow> potential w' \<le> potential w"
      and nf: "no_foreign_methods w"
      and s: "lookup w this = Some (Sub s)" "\<not> isUnsubscribed s"
      and U: "unsubscribe k w this = Some (r, w')"
  shows "potential w' < potential w"
proof -
  let ?w1 = "detach w this s"
  from U s obtain h e w2 where
    T: "(if isFunction (priv_unsubscribe s)
         then (case invoke k ?w1 (body_of (priv_unsubscribe s)) of
                 None \<Rightarrow> None
               | Some (Normal, w2) \<Rightarrow> Some ((False, None), w2)
               | Some (Thrown e, w2) \<Rightarrow> Some ((True, Some [e]), w2))
         else Some ((False, None), ?w1)) = Some ((h, e), w2)"
    and L: "\<exists>h' e'. (if isArray (priv_subscriptions s)
         then unsubscribe_loop k w2 (the (priv_subscriptions s)) (-1)
                (int (length (the (priv_subscriptions s)))) h e
         else Some ((h, e), w2)) = Some ((h', e'), w')"
    by (auto simp: unsubscribe.simps Let_def split: option.splits prod.splits)
  have nf1: "no_foreign_methods ?w1"
    using step_no_foreign_methods [OF step_detach [OF s] nf] .
  note ip = invoke_potential [OF C0 nf1]
  from T have 1: "potential w2 \<le> potential ?w1 + body_weight (priv_unsubscribe s)"
    by (auto simp: body_weight_def split: if_splits option.splits completion.splits dest: ip)
  from T have st: "step\<^sup>*\<^sup>* ?w1 w2"
    by (auto split: if_splits option.splits completion.splits intro: invoke_steps)
  have nf2: "no_foreign_methods w2"
    using steps_no_foreign_methods [OF st nf1] .
  note lp = loop_potential [OF C0 nf2]
  from L have 2: "potential w' \<le> potential w2"
    by (auto split: if_splits dest: lp)
  from potential_detach [OF s] 1 2 show ?thesis by linarith
qed

lemma unsubscribe_potential:
  assumes C0: "\<forall>w x r w'. no_foreign_methods w \<longrightarrow> call_unsubscribe k w x = Some (r, w')
                 \<longrightarrow> potential w' \<le> potential w"
      and nf: "no_foreign_methods w"
      and U: "unsubscribe k w this = Some (r, w')"
  shows "potential w' \<le> potential w"
proof (cases "\<exists>s. lookup w this = Some (Sub s) \<and> \<not> isUnsubscribed s")
  case False
  from unsubscribe_not_live [OF this U] show ?thesis by simp
next
  case True
  then obtain s where s: "lookup w this = Some (Sub s)" "\<not> isUnsubscribed s" by blast
  from unsubscribe_live_potential [OF C0 nf s U] show ?thesis by simp
qed

lemma call_potential_all:
  "\<forall>w x r w'. no_foreign_methods w \<longrightarrow> call_unsubscribe k w x = Some (r, w')
     \<longrightarrow> potential w' \<le> potential w"
proof (induction k)
  case 0
  show ?case by simp
next
  case (Suc k)
  show ?case
  proof (intro allI impI)
    fix w x r w'
    assume nf: "no_foreign_methods w" and c: "call_unsubscribe (Suc k) w x = Some (r, w')"
    show "potential w' \<le> potential w"
    proof (cases "\<exists>a s. x = Ref a \<and> lookup w a = Some (Sub s)")
      case True
      with c obtain a where "unsubscribe k w a = Some (r, w')" by auto
      from unsubscribe_potential [OF Suc nf this] show ?thesis .
    next
      case False
      with c nf have "w' = w"
        by (auto simp: no_foreign_methods_iff isFunction_def
                 split: val.splits option.splits obj.splits if_splits)
      then show ?thesis by simp
    qed
  qed
qed

lemmas unsubscribe_live_decreases = unsubscribe_live_potential [OF call_potential_all]
  and invoke_bounded = invoke_potential [OF call_potential_all]
  and exec_bounded = exec_potential [OF call_potential_all]
  and add_bounded = add_potential [OF call_potential_all]
  and loop_bounded = loop_potential [OF call_potential_all]

lemma call_unsubscribe_bounded:
  "no_foreign_methods w \<Longrightarrow> call_unsubscribe k w x = Some (r, w') \<Longrightarrow> potential w' \<le> potential w"
  using call_potential_all by blast

subsection \<open>With the potential as bound, every call completes\<close>

lemma add_total:
  assumes C0: "\<forall>w x. no_foreign_methods w \<longrightarrow> potential w < k \<longrightarrow> call_unsubscribe k w x \<noteq> None"
      and nf: "no_foreign_methods w"
      and b: "potential w + weight x < k"
  shows "add k w this x \<noteq> None"
proof (cases "\<exists>s. lookup w this = Some (Sub s)")
  case False
  then show ?thesis by (simp add: add_not_Sub)
next
  case True
  then obtain s where s: "lookup w this = Some (Sub s)" by blast
  show ?thesis
  proof (cases rule: add_argument_cases [of x this])
    case noop
    with s show ?thesis by (simp add: add_noop)
  next
    case (func b)
    let ?w1 = "fst (new_Subscription w x)"
    have "potential ?w1 = potential w + weight x" using func by simp
    moreover have "no_foreign_methods ?w1"
      using step_no_foreign_methods [OF step_new nf] .
    ultimately have "call_unsubscribe k ?w1 (Ref (length (heap w))) \<noteq> None"
      using C0 b by simp
    with s func show ?thesis by (simp add: add_function)
  next
    case object
    from C0 nf b have "call_unsubscribe k w x \<noteq> None" by simp
    with add_object [OF s object, of k] show ?thesis by simp
  next
    case other
    with s show ?thesis by (simp add: add_unrecognized)
  qed
qed

lemma exec_total:
  assumes C0: "\<forall>w x. no_foreign_methods w \<longrightarrow> potential w < k \<longrightarrow> call_unsubscribe k w x \<noteq> None"
      and nf: "no_foreign_methods w"
      and b: "potential w + weight_stmt c < k"
  shows "exec k w c \<noteq> None"
proof (cases c)
  case (CallUnsubscribe x)
  with C0 nf b show ?thesis by simp
next
  case (CallAdd t x)
  with b have "potential w + weight x < k" by simp
  from add_total [OF C0 nf this] CallAdd show ?thesis
    by (auto split: val.splits option.splits obj.splits)
next
  case (CallRemove t x)
  then show ?thesis by (auto split: val.splits option.splits obj.splits)
next
  case (Throw e)
  then show ?thesis by simp
next
  case (Log m)
  then show ?thesis by simp
qed

lemma invoke_total:
  assumes C0: "\<forall>w x. no_foreign_methods w \<longrightarrow> potential w < k \<longrightarrow> call_unsubscribe k w x \<noteq> None"
  shows "no_foreign_methods w \<Longrightarrow> potential w + sum_list (map weight_stmt cs) < k \<Longrightarrow>
         invoke k w cs \<noteq> None"
proof (induction cs arbitrary: w)
  case Nil
  show ?case by simp
next
  case (Cons c cs)
  from Cons.prems have "potential w + weight_stmt c < k" by simp
  from exec_total [OF C0 Cons.prems(1) this] obtain r1 w1 where e: "exec k w c = Some (r1, w1)"
    by auto
  from exec_bounded [OF Cons.prems(1) e] Cons.prems(2)
  have b1: "potential w1 + sum_list (map weight_stmt cs) < k" by simp
  have nf1: "no_foreign_methods w1"
    using steps_no_foreign_methods [OF exec_steps [OF e] Cons.prems(1)] .
  from Cons.IH [OF nf1 b1] e show ?case by (cases r1) simp_all
qed

lemma loop_total:
  assumes C0: "\<forall>w x. no_foreign_methods w \<longrightarrow> potential w < k \<longrightarrow> call_unsubscribe k w x \<noteq> None"
  shows "no_foreign_methods w \<Longrightarrow> potential w < k \<Longrightarrow>
         unsubscribe_loop k w subs index len h e \<noteq> None"
proof (induction "nat (len - index)" arbitrary: index w h e)
  case 0
  then show ?case by (simp add: unsubscribe_loop.simps)
next
  case (Suc n)
  from Suc.hyps(2) have n: "n = nat (len - (index + 1))" by simp
  note IH = Suc.hyps(1) [OF n]
  show ?case
  proof (cases "index + 1 < len \<and> isObject (subs ! nat (index + 1))")
    case False
    with IH [OF Suc.prems] show ?thesis
      by (subst unsubscribe_loop.simps) auto
  next
    case True
    from C0 Suc.prems obtain r1 w1 where
      c: "call_unsubscribe k w (subs ! nat (index + 1)) = Some (r1, w1)" by fastforce
    from call_unsubscribe_bounded [OF Suc.prems(1) c] Suc.prems(2)
    have b1: "potential w1 < k" by simp
    have nf1: "no_foreign_methods w1"
      using steps_no_foreign_methods [OF call_unsubscribe_steps [OF c] Suc.prems(1)] .
    from IH [OF nf1 b1] True c show ?thesis
      by (subst unsubscribe_loop.simps) (cases r1, auto)
  qed
qed

lemma unsubscribe_total:
  assumes C0: "\<forall>w x. no_foreign_methods w \<longrightarrow> potential w < k \<longrightarrow> call_unsubscribe k w x \<noteq> None"
      and nf: "no_foreign_methods w"
      and b: "potential w \<le> k"
  shows "unsubscribe k w this \<noteq> None"
proof (cases "\<exists>s. lookup w this = Some (Sub s) \<and> \<not> isUnsubscribed s")
  case False
  then show ?thesis
    by (auto simp: unsubscribe.simps split: option.splits obj.splits)
next
  case True
  then obtain s where s: "lookup w this = Some (Sub s)" "\<not> isUnsubscribed s" by blast
  let ?w1 = "detach w this s"
  have nf1: "no_foreign_methods ?w1"
    using step_no_foreign_methods [OF step_detach [OF s] nf] .
  from potential_detach [OF s] b
  have b1: "potential ?w1 + body_weight (priv_unsubscribe s) < k" by linarith
  obtain r0 w1 where t: "own_teardown k ?w1 s = Some (r0, w1)"
  proof (cases "priv_unsubscribe s")
    case (Function body)
    with b1 have "potential ?w1 + sum_list (map weight_stmt body) < k"
      by (simp add: body_weight_def)
    from invoke_total [OF C0 nf1 this] Function that show ?thesis
      by (auto simp: own_teardown_def)
  qed (auto simp: own_teardown_def intro: that)
  have "potential w1 \<le> potential ?w1 + body_weight (priv_unsubscribe s)"
    using t invoke_bounded [OF nf1]
    by (cases "priv_unsubscribe s") (auto simp: own_teardown_def body_weight_def)
  with b1 have b2: "potential w1 < k" by simp
  have "step\<^sup>*\<^sup>* ?w1 w1"
    using t by (cases "priv_unsubscribe s") (auto simp: own_teardown_def intro: invoke_steps)
  then have nf2: "no_foreign_methods w1" using nf1 by (rule steps_no_foreign_methods)
  from loop_total [OF C0 nf2 b2] obtain q where
    "unsubscribe_loop k w1 (children s) (- 1) (int (length (children s))) (failed r0)
       (case r0 of Normal \<Rightarrow> None | Thrown e \<Rightarrow> Some [e]) = Some q"
    by blast
  with t show ?thesis
    unfolding unsubscribe_live [OF s] by (cases q) auto
qed

lemma call_total_all:
  "\<forall>w x. no_foreign_methods w \<longrightarrow> potential w < k \<longrightarrow> call_unsubscribe k w x \<noteq> None"
proof (induction k)
  case 0
  show ?case by simp
next
  case (Suc k)
  show ?case
  proof (intro allI impI)
    fix w x
    assume nf: "no_foreign_methods w" and b: "potential w < Suc k"
    then have "potential w \<le> k" by simp
    from unsubscribe_total [OF Suc nf this] nf show "call_unsubscribe (Suc k) w x \<noteq> None"
      by (auto simp: no_foreign_methods_iff isFunction_def split: val.splits option.splits obj.splits)
  qed
qed

text \<open>Where no plain object has an \<^verbatim>\<open>unsubscribe\<close> method, the potential of the world is
  call depth enough for \<^verbatim>\<open>unsubscribe\<close>, and the potential plus the weight of the argument
  for \<^verbatim>\<open>add\<close>.\<close>

lemma unsubscribe_completes:
  "no_foreign_methods w \<Longrightarrow> potential w \<le> k \<Longrightarrow> \<exists>r w'. unsubscribe k w n = Some (r, w')"
  using unsubscribe_total [OF call_total_all, of w k n] by auto

lemma add_completes:
  "no_foreign_methods w \<Longrightarrow> potential w + weight x < k \<Longrightarrow> \<exists>r w'. add k w n x = Some (r, w')"
  using add_total [OF call_total_all, of w x k n] by auto

lemma call_unsubscribe_completes:
  "no_foreign_methods w \<Longrightarrow> potential w < k \<Longrightarrow> \<exists>r w'. call_unsubscribe k w x = Some (r, w')"
  using call_total_all [of k] by auto

lemma cancel_each_completes:
  "no_foreign_methods w \<Longrightarrow> potential w < k \<Longrightarrow> \<exists>rs w'. cancel_each k w cs = Some (rs, w')"
proof (induction cs arbitrary: w)
  case Nil
  show ?case by simp
next
  case (Cons c cs)
  from call_unsubscribe_completes [OF Cons.prems] obtain r w1 where
    c: "call_unsubscribe k w c = Some (r, w1)" by blast
  from call_unsubscribe_bounded [OF Cons.prems(1) c] Cons.prems(2) have "potential w1 < k" by simp
  moreover have "no_foreign_methods w1"
    using steps_no_foreign_methods [OF call_unsubscribe_steps [OF c] Cons.prems(1)] .
  ultimately obtain rs w' where "cancel_each k w1 cs = Some (rs, w')"
    using Cons.IH by blast
  with c show ?case by simp
qed

section \<open>The invariants hold initially and are kept by every operation\<close>

lemma init_world_invariants:
  "cancelled_childless init_world" "children_ok init_world"
  by (simp_all add: cancelled_childless_def children_ok_def init_world_def children_def
        children_at_def lookup_def)

lemma unsubscribe_children_ok:
  "children_ok w \<Longrightarrow> unsubscribe k w n = Some (r, w') \<Longrightarrow> children_ok w'"
  using steps_children_ok unsubscribe_steps by blast

lemma add_children_ok:
  "children_ok w \<Longrightarrow> add k w n x = Some (r, w') \<Longrightarrow> children_ok w'"
  using steps_children_ok add_steps by blast

lemma remove_children_ok: "children_ok w \<Longrightarrow> children_ok (remove w n x)"
  using steps_children_ok remove_steps by blast

section \<open>Claims about \<^verbatim>\<open>add\<close> and \<^verbatim>\<open>remove\<close> that need no callbacks\<close>

text \<open>C8. For every node \<open>n\<close>, each of \<^verbatim>\<open>n.add(null)\<close> (and \<^verbatim>\<open>undefined\<close>), \<^verbatim>\<open>n.add(n)\<close> and
  \<^verbatim>\<open>n.add(EMPTY)\<close> completes normally and leaves the whole world as it was: the children of
  \<open>n\<close>, every other field of every object, and the log (so nothing was cancelled).\<close>

theorem add_null_this_EMPTY_is_noop:
  assumes "lookup w n = Some (Sub s)"
  shows "add k w n Null = Some (Normal, w) \<and> add k w n Undefined = Some (Normal, w)
       \<and> add k w n (Ref n) = Some (Normal, w) \<and> add k w n (Ref EMPTY) = Some (Normal, w)"
  using assms by (simp add: add_noop)

theorem add_null_this_EMPTY_is_noop_witness:
  "lookup tree_world 1 = Some (Sub \<lparr>isUnsubscribed = False, priv_unsubscribe = Function [Log ''t0''],
                                     priv_subscriptions = Some [Ref 2, Ref 3]\<rparr>)
   \<and> add 0 tree_world 1 Null = Some (Normal, tree_world)
   \<and> add 0 tree_world 1 (Ref 1) = Some (Normal, tree_world)
   \<and> add 0 tree_world 1 (Ref EMPTY) = Some (Normal, tree_world)"
proof -
  have h: "lookup tree_world 1 = Some (Sub \<lparr>isUnsubscribed = False,
             priv_unsubscribe = Function [Log ''t0''], priv_subscriptions = Some [Ref 2, Ref 3]\<rparr>)"
    by (simp add: tree_world_def lookup_def)
  from add_null_this_EMPTY_is_noop [OF h, of 0] h show ?thesis by simp
qed

text \<open>C9. In a world where the children lists are as \<^verbatim>\<open>add\<close> builds them, for every node
  \<open>n\<close> and item \<open>x\<close> among the children of \<open>n\<close>, \<^verbatim>\<open>n.remove(x)\<close> deletes exactly the first
  occurrence of \<open>x\<close> from the children of \<open>n\<close> and changes nothing else; when \<open>x\<close> is not
  among them the world is unchanged. \<^verbatim>\<open>remove\<close> has no failing path: called from a callback
  it always completes normally.\<close>

theorem remove_first_occurrence:
  assumes "children_ok w" and "lookup w n = Some (Sub s)"
  shows "(x \<in> set (children s) \<longrightarrow>
            remove w n x = store w n (Sub (s\<lparr>priv_subscriptions := Some (remove1 x (children s))\<rparr>)))
       \<and> (x \<notin> set (children s) \<longrightarrow> remove w n x = w)
       \<and> exec k w (CallRemove (Ref n) x) = Some (Normal, remove w n x)"
proof (intro conjI impI)
  assume x: "x \<in> set (children s)"
  with assms have "child_ok w n x" by (auto simp: children_ok_iff)
  then have "x \<noteq> Null" "x \<noteq> Undefined" "x \<noteq> Ref n" "x \<noteq> Ref EMPTY"
    by (auto simp: child_ok_iff)
  with assms(2) x
  show "remove w n x = store w n (Sub (s\<lparr>priv_subscriptions := Some (remove1 x (children s))\<rparr>))"
    by (rule remove_present)
next
  assume "x \<notin> set (children s)"
  with assms(2) show "remove w n x = w" by (intro remove_absent) simp
next
  from assms(2) show "exec k w (CallRemove (Ref n) x) = Some (Normal, remove w n x)" by simp
qed

theorem remove_first_occurrence_witness:
  "children_ok tree_world
   \<and> remove tree_world 1 (Ref 3) =
       store tree_world 1 (Sub \<lparr>isUnsubscribed = False, priv_unsubscribe = Function [Log ''t0''],
                                 priv_subscriptions = Some [Ref 2]\<rparr>)
   \<and> remove tree_world 1 (Ref 1) = tree_world"
proof -
  have ok: "children_ok tree_world" by code_simp
  have h: "lookup tree_world 1 = Some (Sub \<lparr>isUnsubscribed = False,
             priv_unsubscribe = Function [Log ''t0''], priv_subscriptions = Some [Ref 2, Ref 3]\<rparr>)"
    by (simp add: tree_world_def lookup_def)
  from remove_first_occurrence [OF ok h, of "Ref 3"] remove_first_occurrence [OF ok h, of "Ref 1"] ok
  show ?thesis by (simp add: children_def)
qed

section \<open>Idempotence and the invariant\<close>

lemma unsubscribe_cancelled:
  "lookup w n = Some (Sub s) \<Longrightarrow> isUnsubscribed s \<Longrightarrow> unsubscribe k w n = Some (Normal, w)"
  by (simp add: unsubscribe.simps)

lemma unsubscribe_leaves_cancelled:
  assumes "lookup w n = Some (Sub s)" and "unsubscribe k w n = Some (r, w')"
  shows "cancelled w' n"
proof (cases "isUnsubscribed s")
  case True
  with assms have "w' = w" by (simp add: unsubscribe_cancelled)
  with assms(1) True show ?thesis by (simp add: cancelled_iff)
next
  case False
  from assms(1) have "n < length (heap w)" by (rule lookup_Some_less)
  then have "cancelled (detach w n s) n" by (simp add: cancelled_iff)
  with unsubscribe_live_steps [OF assms(1) False assms(2)] show ?thesis
    by (rule steps_cancelled)
qed

text \<open>C2. For every node \<open>n\<close>: a first call of \<^verbatim>\<open>cancel()\<close> completes (where no plain object
  brings a method of its own, with the potential of the world as call depth); once it has
  completed, normally or with an aggregate failure, \<open>n\<close> is cancelled and every further
  call completes normally, whatever its call-depth bound, and leaves the world (heap and
  log, so no teardown runs again) exactly as the first call left it.\<close>

theorem unsubscribe_idempotent:
  assumes "lookup w n = Some (Sub s)"
  shows "(no_foreign_methods w \<and> potential w \<le> k \<longrightarrow> (\<exists>r w'. unsubscribe k w n = Some (r, w')))
       \<and> (\<forall>r w'. unsubscribe k w n = Some (r, w')
             \<longrightarrow> cancelled w' n \<and> unsubscribe k' w' n = Some (Normal, w'))"
proof (intro conjI allI impI)
  assume "no_foreign_methods w \<and> potential w \<le> k"
  then show "\<exists>r w'. unsubscribe k w n = Some (r, w')"
    by (auto intro: unsubscribe_completes)
next
  fix r w'
  assume u: "unsubscribe k w n = Some (r, w')"
  with assms show c: "cancelled w' n" by (rule unsubscribe_leaves_cancelled)
  then obtain s' where "lookup w' n = Some (Sub s')" "isUnsubscribed s'"
    by (auto simp: cancelled_iff)
  then show "unsubscribe k' w' n = Some (Normal, w')" by (rule unsubscribe_cancelled)
qed

theorem unsubscribe_idempotent_witness:
  "no_foreign_methods tree_world \<and> potential tree_world \<le> 3
   \<and> unsubscribe 3 tree_world 1 = Some (Thrown (UnsubscriptionError [Error ''e1'']), tree_world_cancelled)
   \<and> cancelled tree_world_cancelled 1
   \<and> unsubscribe 3 tree_world_cancelled 1 = Some (Normal, tree_world_cancelled)"
proof -
  have h: "lookup tree_world 1 = Some (Sub \<lparr>isUnsubscribed = False,
             priv_unsubscribe = Function [Log ''t0''], priv_subscriptions = Some [Ref 2, Ref 3]\<rparr>)"
    by (simp add: tree_world_def lookup_def)
  have b: "no_foreign_methods tree_world \<and> potential tree_world \<le> 3" by code_simp
  have u: "unsubscribe 3 tree_world 1
             = Some (Thrown (UnsubscriptionError [Error ''e1'']), tree_world_cancelled)"
    by code_simp
  from unsubscribe_idempotent [OF h, of 3 3] u b show ?thesis by simp
qed

text \<open>C6. Every operation keeps the invariant that a cancelled node has no children, and
  never resets a flag: in a world that satisfies the invariant, whenever \<^verbatim>\<open>cancel\<close> or
  \<^verbatim>\<open>add\<close> completes (normally or not, callbacks included) and after every \<^verbatim>\<open>remove\<close>, the
  invariant holds again and every node that was cancelled before is cancelled after.\<close>

theorem operations_keep_invariant:
  assumes "cancelled_childless w"
  shows "(unsubscribe k w n = Some (r, w') \<longrightarrow> cancelled_childless w' \<and> flags_monotonic w w')
       \<and> (add k w n x = Some (r, w') \<longrightarrow> cancelled_childless w' \<and> flags_monotonic w w')
       \<and> cancelled_childless (remove w n x) \<and> flags_monotonic w (remove w n x)"
proof (intro conjI impI)
  assume "unsubscribe k w n = Some (r, w')"
  then have st: "step\<^sup>*\<^sup>* w w'" by (rule unsubscribe_steps)
  from st assms show "cancelled_childless w'" by (rule steps_cancelled_childless)
  from st show "flags_monotonic w w'" by (rule steps_flags_monotonic)
next
  assume "add k w n x = Some (r, w')"
  then have st: "step\<^sup>*\<^sup>* w w'" by (rule add_steps)
  from st assms show "cancelled_childless w'" by (rule steps_cancelled_childless)
  from st show "flags_monotonic w w'" by (rule steps_flags_monotonic)
next
  from remove_steps assms show "cancelled_childless (remove w n x)"
    by (rule steps_cancelled_childless)
  from remove_steps show "flags_monotonic w (remove w n x)" by (rule steps_flags_monotonic)
qed

theorem operations_keep_invariant_witness:
  "cancelled_childless tree_world
   \<and> unsubscribe 1 tree_world 1 = Some (Thrown (UnsubscriptionError [Error ''e1'']), tree_world_cancelled)
   \<and> cancelled_childless tree_world_cancelled
   \<and> flags_monotonic tree_world tree_world_cancelled
   \<and> add 1 tree_world_cancelled 1 (Function [Log ''late'']) = Some (Normal, late_world)
   \<and> cancelled_childless late_world
   \<and> flags_monotonic tree_world_cancelled late_world"
proof -
  have i: "cancelled_childless tree_world" by code_simp
  have u: "unsubscribe 1 tree_world 1
             = Some (Thrown (UnsubscriptionError [Error ''e1'']), tree_world_cancelled)"
    by code_simp
  have a: "add 1 tree_world_cancelled 1 (Function [Log ''late'']) = Some (Normal, late_world)"
    by code_simp
  from operations_keep_invariant [OF i, where k = 1 and n = 1 and w' = tree_world_cancelled] u
  have 1: "cancelled_childless tree_world_cancelled \<and> flags_monotonic tree_world tree_world_cancelled"
    by blast
  then have "cancelled_childless tree_world_cancelled" ..
  from operations_keep_invariant [OF this, where k = 1 and n = 1 and w' = late_world
      and x = "Function [Log ''late'']"] a
  have 2: "cancelled_childless late_world \<and> flags_monotonic tree_world_cancelled late_world"
    by blast
  from i u a 1 2 show ?thesis by simp
qed

section \<open>The loop over the detached children\<close>

lemma reported_Thrown:
  "(case err of UnsubscriptionError es \<Rightarrow> Some (xs @ es) | _ \<Rightarrow> Some (xs @ [err]))
     = Some (xs @ reported (Thrown err))"
  by (cases err) simp_all

lemma reported_none_failed: "\<not> list_ex failed rs \<Longrightarrow> concat (map reported rs) = []"
  by (induction rs) (auto simp: failed_def)

lemma cancel_each_length: "cancel_each k w cs = Some (rs, w') \<Longrightarrow> length rs = length cs"
  by (induction cs arbitrary: w rs) (auto split: option.splits)

text \<open>\<open>cancel_each\<close> cancels the \<open>i\<close>-th child once, in the world the children before it
  left, and records how that call completed.\<close>

lemma cancel_each_iff:
  "cancel_each k w cs = Some (rs, w') \<longleftrightarrow>
     (\<exists>ws. length ws = Suc (length cs) \<and> length rs = length cs \<and> ws ! 0 = w
          \<and> ws ! length cs = w'
          \<and> (\<forall>i < length cs. call_unsubscribe k (ws ! i) (cs ! i) = Some (rs ! i, ws ! Suc i)))"
proof (induction cs arbitrary: w rs)
  case Nil
  show ?case
  proof
    assume "cancel_each k w [] = Some (rs, w')"
    then have "length [w] = Suc (length ([]::val list)) \<and> length rs = length ([]::val list)
      \<and> [w] ! 0 = w \<and> [w] ! length ([]::val list) = w'" by simp
    then show "\<exists>ws. length ws = Suc (length ([]::val list)) \<and> length rs = length ([]::val list)
       \<and> ws ! 0 = w \<and> ws ! length ([]::val list) = w'
       \<and> (\<forall>i < length ([]::val list). call_unsubscribe k (ws ! i) ([] ! i) = Some (rs ! i, ws ! Suc i))"
      by (intro exI [of _ "[w]"]) simp
  next
    assume "\<exists>ws. length ws = Suc (length ([]::val list)) \<and> length rs = length ([]::val list)
       \<and> ws ! 0 = w \<and> ws ! length ([]::val list) = w'
       \<and> (\<forall>i < length ([]::val list). call_unsubscribe k (ws ! i) ([] ! i) = Some (rs ! i, ws ! Suc i))"
    then show "cancel_each k w [] = Some (rs, w')" by auto
  qed
next
  case (Cons c cs)
  show ?case
  proof
    assume a: "cancel_each k w (c # cs) = Some (rs, w')"
    then obtain r w1 rs1 where 1: "call_unsubscribe k w c = Some (r, w1)"
      and 2: "cancel_each k w1 cs = Some (rs1, w')" and rs: "rs = r # rs1"
      by (auto split: option.splits)
    from 2 Cons.IH [of w1 rs1] obtain ws where ws: "length ws = Suc (length cs)"
      "length rs1 = length cs" "ws ! 0 = w1" "ws ! length cs = w'"
      "\<forall>i < length cs. call_unsubscribe k (ws ! i) (cs ! i) = Some (rs1 ! i, ws ! Suc i)"
      by blast
    have "\<forall>i < length (c # cs).
            call_unsubscribe k ((w # ws) ! i) ((c # cs) ! i) = Some (rs ! i, (w # ws) ! Suc i)"
    proof (intro allI impI)
      fix i assume "i < length (c # cs)"
      with 1 ws rs show "call_unsubscribe k ((w # ws) ! i) ((c # cs) ! i)
                           = Some (rs ! i, (w # ws) ! Suc i)"
        by (cases i) auto
    qed
    with ws rs show "\<exists>ws. length ws = Suc (length (c # cs)) \<and> length rs = length (c # cs)
       \<and> ws ! 0 = w \<and> ws ! length (c # cs) = w'
       \<and> (\<forall>i < length (c # cs).
             call_unsubscribe k (ws ! i) ((c # cs) ! i) = Some (rs ! i, ws ! Suc i))"
      by (intro exI [of _ "w # ws"]) simp
  next
    assume "\<exists>ws. length ws = Suc (length (c # cs)) \<and> length rs = length (c # cs)
       \<and> ws ! 0 = w \<and> ws ! length (c # cs) = w'
       \<and> (\<forall>i < length (c # cs).
             call_unsubscribe k (ws ! i) ((c # cs) ! i) = Some (rs ! i, ws ! Suc i))"
    then obtain ws where ws: "length ws = Suc (length (c # cs))" "length rs = length (c # cs)"
      "ws ! 0 = w" "ws ! length (c # cs) = w'"
      and calls: "\<And>i. i < length (c # cs) \<Longrightarrow>
             call_unsubscribe k (ws ! i) ((c # cs) ! i) = Some (rs ! i, ws ! Suc i)"
      by blast
    from ws(1) obtain w0 ws1 where ws1: "ws = w0 # ws1" by (cases ws) auto
    from ws(2) obtain r rs1 where rs1: "rs = r # rs1" by (cases rs) auto
    from calls [of 0] ws ws1 rs1 have 1: "call_unsubscribe k w c = Some (r, ws1 ! 0)" by simp
    have "\<forall>i < length cs. call_unsubscribe k (ws1 ! i) (cs ! i) = Some (rs1 ! i, ws1 ! Suc i)"
    proof (intro allI impI)
      fix i assume "i < length cs"
      with calls [of "Suc i"] ws1 rs1
      show "call_unsubscribe k (ws1 ! i) (cs ! i) = Some (rs1 ! i, ws1 ! Suc i)" by simp
    qed
    with ws ws1 rs1 have "cancel_each k (ws1 ! 0) cs = Some (rs1, w')"
      by (subst Cons.IH) (intro exI [of _ ws1], simp)
    with 1 rs1 show "cancel_each k w (c # cs) = Some (rs, w')" by simp
  qed
qed

text \<open>The \<^verbatim>\<open>while (++index < len)\<close> loop with its \<^verbatim>\<open>hasErrors\<close> flag and its lazily created
  \<^verbatim>\<open>errors\<close> array computes what the specification's pass over the remaining children
  does.\<close>

lemma unsubscribe_loop_refines:
  assumes "list_all isObject subs" and "- 1 \<le> index"
  shows "unsubscribe_loop k w subs index (int (length subs)) h e =
     (case cancel_each k w (drop (nat (index + 1)) subs) of
        None \<Rightarrow> None
      | Some (rs, w') \<Rightarrow>
          Some ((h \<or> list_ex failed rs,
                 if list_ex failed rs
                 then Some ((case e of None \<Rightarrow> [] | Some xs \<Rightarrow> xs) @ concat (map reported rs))
                 else e), w'))"
  using assms(2)
proof (induction "length subs - nat (index + 1)" arbitrary: index w h e)
  case 0
  then have "\<not> index + 1 < int (length subs)" by linarith
  moreover from 0 have "drop (nat (index + 1)) subs = []" by simp
  ultimately show ?case by (simp add: unsubscribe_loop.simps)
next
  case (Suc n)
  let ?i = "nat (index + 1)"
  from Suc.hyps(2) Suc.prems have lt: "index + 1 < int (length subs)" and i: "?i < length subs"
    by linarith+
  from Suc.hyps(2) Suc.prems have n: "n = length subs - nat (index + 1 + 1)" by linarith
  from Suc.prems have nat_next: "nat (index + 1 + 1) = Suc ?i" by linarith
  from i have dr: "drop ?i subs = subs ! ?i # drop (Suc ?i) subs"
    by (simp add: Cons_nth_drop_Suc)
  from assms(1) i have ob: "isObject (subs ! ?i)" by (simp add: list_all_length)
  have IH: "unsubscribe_loop k w1 subs (index + 1) (int (length subs)) h1 e1 =
     (case cancel_each k w1 (drop (Suc ?i) subs) of
        None \<Rightarrow> None
      | Some (rs, w') \<Rightarrow>
          Some ((h1 \<or> list_ex failed rs,
                 if list_ex failed rs
                 then Some ((case e1 of None \<Rightarrow> [] | Some xs \<Rightarrow> xs) @ concat (map reported rs))
                 else e1), w'))" for w1 h1 e1
    using Suc.hyps(1) [OF n, of w1 h1 e1] Suc.prems nat_next by simp
  show ?case
  proof (cases "call_unsubscribe k w (subs ! ?i)")
    case None
    with lt ob dr show ?thesis by (subst unsubscribe_loop.simps) simp
  next
    case (Some p)
    obtain r w1 where p: "p = (r, w1)" by (cases p)
    show ?thesis
    proof (cases r)
      case Normal
      with Some p lt ob dr IH show ?thesis
        by (subst unsubscribe_loop.simps) (auto simp: failed_def split: option.splits)
    next
      case (Thrown err)
      with Some p lt ob dr IH show ?thesis
        by (subst unsubscribe_loop.simps)
           (auto simp: failed_def reported_Thrown reported_none_failed split: option.splits)
    qed
  qed
qed

section \<open>C1: cancellation of the children\<close>

text \<open>C1. For every live node \<open>n\<close> whose children are objects, one call of \<^verbatim>\<open>cancel()\<close>
  detaches, runs the own teardown, and then calls the cancellation of every child exactly
  once, in insertion order, each in the world its predecessors left and whether or not
  they failed (\<open>cancel_each\<close>, see \<open>cancel_each_iff\<close>); it completes exactly when all of
  these calls complete, which they do where no plain object brings a method of its own and
  the call depth is at least the potential of the world. The reported failure list is the
  own teardown failure (if any) first, followed by every child's reported failures in child
  order, an aggregate thrown by a child contributing its inner failures.\<close>

theorem unsubscribe_cancels_every_child:
  assumes "lookup w n = Some (Sub s)" and "\<not> isUnsubscribed s"
      and "list_all isObject (children s)"
  shows "unsubscribe k w n =
           (case own_teardown k (detach w n s) s of
              None \<Rightarrow> None
            | Some (r0, w1) \<Rightarrow>
                (case cancel_each k w1 (children s) of
                   None \<Rightarrow> None
                 | Some (rs, w2) \<Rightarrow> Some (aggregate r0 rs, w2)))
       \<and> (\<forall>w1 rs w2. cancel_each k w1 (children s) = Some (rs, w2)
             \<longrightarrow> length rs = length (children s))
       \<and> (no_foreign_methods w \<and> potential w \<le> k
             \<longrightarrow> (\<exists>r w'. unsubscribe k w n = Some (r, w')))"
proof (intro conjI)
  show "\<forall>w1 rs w2. cancel_each k w1 (children s) = Some (rs, w2)
          \<longrightarrow> length rs = length (children s)"
    by (auto dest: cancel_each_length)
next
  show "no_foreign_methods w \<and> potential w \<le> k
          \<longrightarrow> (\<exists>r w'. unsubscribe k w n = Some (r, w'))"
    by (auto intro: unsubscribe_completes)
next
  let ?w0 = "detach w n s"
  have fn: "isFunction f \<longleftrightarrow> (\<exists>b. f = Function b)" for f
    by (simp add: isFunction_def typeof_function_cases)
  show "unsubscribe k w n =
           (case own_teardown k ?w0 s of
              None \<Rightarrow> None
            | Some (r0, w1) \<Rightarrow>
                (case cancel_each k w1 (children s) of
                   None \<Rightarrow> None
                 | Some (rs, w2) \<Rightarrow> Some (aggregate r0 rs, w2)))"
  proof (cases "own_teardown k ?w0 s")
    case None
    then have "isFunction (priv_unsubscribe s)"
      "invoke k ?w0 (body_of (priv_unsubscribe s)) = None"
      by (auto simp: own_teardown_def fn split: val.splits)
    with assms(1,2) None show ?thesis by (simp add: unsubscribe.simps)
  next
    case (Some p)
    obtain r0 w1 where p: "p = (r0, w1)" by (cases p)
    let ?h = "failed r0" and ?e = "case r0 of Normal \<Rightarrow> None | Thrown x \<Rightarrow> Some [x]"
    have T: "(if isFunction (priv_unsubscribe s)
              then (case invoke k ?w0 (body_of (priv_unsubscribe s)) of
                      None \<Rightarrow> None
                    | Some (Normal, w2) \<Rightarrow> Some ((False, None), w2)
                    | Some (Thrown e, w2) \<Rightarrow> Some ((True, Some [e]), w2))
              else Some ((False, None), ?w0)) = Some ((?h, ?e), w1)"
      using Some p
      by (cases "priv_unsubscribe s"; cases r0)
         (auto simp: own_teardown_def isFunction_def failed_def)
    have L: "(if isArray (priv_subscriptions s)
              then unsubscribe_loop k w1 (the (priv_subscriptions s)) (- 1)
                     (int (length (the (priv_subscriptions s)))) ?h ?e
              else Some ((?h, ?e), w1)) =
             (case cancel_each k w1 (children s) of
                None \<Rightarrow> None
              | Some (rs, w2) \<Rightarrow>
                  Some ((?h \<or> list_ex failed rs,
                         if list_ex failed rs
                         then Some ((case ?e of None \<Rightarrow> [] | Some xs \<Rightarrow> xs) @ concat (map reported rs))
                         else ?e), w2))"
    proof (cases "priv_subscriptions s")
      case None
      then show ?thesis by (simp add: isArray_def children_def)
    next
      case (Some cs)
      with assms(3) have "list_all isObject cs" by (simp add: children_def)
      from unsubscribe_loop_refines [OF this, of "- 1" k w1 ?h ?e] Some
      show ?thesis by (simp add: isArray_def children_def)
    qed
    have U: "unsubscribe k w n =
              (case (if isArray (priv_subscriptions s)
                     then unsubscribe_loop k w1 (the (priv_subscriptions s)) (- 1)
                            (int (length (the (priv_subscriptions s)))) ?h ?e
                     else Some ((?h, ?e), w1)) of
                 None \<Rightarrow> None
               | Some ((h', e'), w3) \<Rightarrow>
                   Some (if h'
                         then Thrown (UnsubscriptionError (case e' of None \<Rightarrow> [] | Some es \<Rightarrow> es))
                         else Normal, w3))"
      using assms(1,2) by (simp add: unsubscribe.simps T)
    have fin: "(if ?h \<or> list_ex failed rs
                then Thrown (UnsubscriptionError
                       (case (if list_ex failed rs
                              then Some ((case ?e of None \<Rightarrow> [] | Some xs \<Rightarrow> xs)
                                         @ concat (map reported rs))
                              else ?e) of None \<Rightarrow> [] | Some es \<Rightarrow> es))
                else Normal) = aggregate r0 rs" for rs
      by (cases r0; cases "list_ex failed rs")
         (simp_all add: aggregate_def failed_def reported_none_failed)
    have "unsubscribe k w n =
            (case cancel_each k w1 (children s) of
               None \<Rightarrow> None
             | Some (rs, w2) \<Rightarrow> Some (aggregate r0 rs, w2))"
    proof (cases "cancel_each k w1 (children s)")
      case None
      then show ?thesis unfolding U L by simp
    next
      case (Some q)
      obtain rs w2 where q: "q = (rs, w2)" by (cases q)
      from Some q show ?thesis unfolding U L by (simp add: fin)
    qed
    with Some p show ?thesis by simp
  qed
qed

theorem unsubscribe_cancels_every_child_witness:
  "unsubscribe 3 tree_world 1 = Some (Thrown (UnsubscriptionError [Error ''e1'']), tree_world_cancelled)
   \<and> cancel_each 3 (tree_world_detached\<lparr>log := [''t0'']\<rparr>) [Ref 2, Ref 3]
       = Some ([Thrown (UnsubscriptionError [Error ''e1'']), Normal], tree_world_cancelled)
   \<and> log tree_world_cancelled = [''t0'', ''t1'', ''t2'']
   \<and> no_foreign_methods tree_world \<and> potential tree_world \<le> 3"
proof -
  let ?s = "\<lparr>isUnsubscribed = False, priv_unsubscribe = Function [Log ''t0''],
             priv_subscriptions = Some [Ref 2, Ref 3]\<rparr>"
  have h: "lookup tree_world 1 = Some (Sub ?s)" by (simp add: tree_world_def lookup_def)
  have l: "\<not> isUnsubscribed ?s" by simp
  have o: "list_all isObject (children ?s)" by (simp add: children_def isObject_def)
  have d: "detach tree_world 1 ?s = tree_world_detached" by code_simp
  have t: "own_teardown 3 tree_world_detached ?s = Some (Normal, tree_world_detached\<lparr>log := [''t0'']\<rparr>)"
    by code_simp
  have c: "cancel_each 3 (tree_world_detached\<lparr>log := [''t0'']\<rparr>) [Ref 2, Ref 3]
       = Some ([Thrown (UnsubscriptionError [Error ''e1'']), Normal], tree_world_cancelled)"
    by code_simp
  have a: "aggregate Normal [Thrown (UnsubscriptionError [Error ''e1'']), Normal]
             = Thrown (UnsubscriptionError [Error ''e1''])"
    by (simp add: aggregate_def failed_def)
  have b: "no_foreign_methods tree_world \<and> potential tree_world \<le> 3" by code_simp
  from unsubscribe_cancels_every_child [OF h l o, of 3] d t c a
  have "unsubscribe 3 tree_world 1
          = Some (Thrown (UnsubscriptionError [Error ''e1'']), tree_world_cancelled)"
    by (simp add: children_def)
  with c b show ?thesis by (simp add: tree_world_cancelled_def)
qed

lemma children_ok_isObject:
  assumes "children_ok w" and "lookup w n = Some (Sub s)"
  shows "list_all isObject (children s)"
proof -
  have "isObject c" if "c \<in> set (children s)" for c
  proof -
    from assms that have "child_ok w n c" by (auto simp: children_ok_iff)
    then show ?thesis by (auto simp: child_ok_iff isObject_def)
  qed
  then show ?thesis by (simp add: list_all_iff)
qed

section \<open>C3: aggregates inside the aggregate\<close>

text \<open>C3 (the code departs from it). The teardown of node 1 calls \<^verbatim>\<open>unsubscribe()\<close> on node
  2, whose teardown throws; the aggregate thrown by node 2 leaves the teardown of node 1, is
  pushed as it is (line 62), and the aggregate reported for node 1 contains an aggregate.
  Only the failures of children are flattened (lines 79-80).\<close>

theorem own_teardown_aggregate_is_nested:
  "map_option fst (unsubscribe 1 nested_world 1)
     = Some (Thrown (UnsubscriptionError [UnsubscriptionError [Error ''boom'']]))
   \<and> \<not> flattened (Thrown (UnsubscriptionError [UnsubscriptionError [Error ''boom'']]))"
  by code_simp

section \<open>C4: detaching before the teardown runs\<close>

text \<open>C4 as the specification states it fails: at the time of the teardown call the node
  still holds its teardown reference (so it is not the empty node of the claim), and it
  holds it after the call as well.\<close>

theorem teardown_reference_stays_counterexample:
  "\<not> fully_detached
        (detach tree_world 1
           \<lparr>isUnsubscribed = False, priv_unsubscribe = Function [Log ''t0''],
            priv_subscriptions = Some [Ref 2, Ref 3]\<rparr>) 1
   \<and> unsubscribe 1 tree_world 1
       = Some (Thrown (UnsubscriptionError [Error ''e1'']), tree_world_cancelled)
   \<and> \<not> fully_detached tree_world_cancelled 1"
  by code_simp

text \<open>C4, amended. A call of \<^verbatim>\<open>cancel()\<close> on a live node \<open>n\<close> sets the flag and detaches
  the children list before it invokes the teardown: the teardown and then the loop over
  the former children run from the world \<open>detach w n s\<close>, in which \<open>n\<close> is cancelled and has
  no children, while its teardown reference is still stored. In that world, and in any
  world where \<open>n\<close> is cancelled, a re-entrant \<^verbatim>\<open>cancel()\<close> on \<open>n\<close> completes normally and
  changes nothing, so a teardown that starts with such a call runs as if the call were not
  there, and the teardown of \<open>n\<close> is not invoked a second time.\<close>

theorem teardown_runs_after_detach:
  assumes "lookup w n = Some (Sub s)" and "\<not> isUnsubscribed s"
  shows "unsubscribe k w n =
           (case own_teardown k (detach w n s) s of
              None \<Rightarrow> None
            | Some (r0, w1) \<Rightarrow>
                (case unsubscribe_loop k w1 (children s) (- 1) (int (length (children s)))
                        (failed r0) (case r0 of Normal \<Rightarrow> None | Thrown e \<Rightarrow> Some [e]) of
                   None \<Rightarrow> None
                 | Some ((h, es), w2) \<Rightarrow>
                     Some (if h
                           then Thrown (UnsubscriptionError (case es of None \<Rightarrow> [] | Some xs \<Rightarrow> xs))
                           else Normal, w2)))
       \<and> lookup (detach w n s) n = Some (Sub (s\<lparr>isUnsubscribed := True, priv_subscriptions := None\<rparr>))
       \<and> cancelled (detach w n s) n
       \<and> children_at (detach w n s) n = []
       \<and> (\<forall>w1. cancelled w1 n \<longrightarrow>
             unsubscribe k' w1 n = Some (Normal, w1)
           \<and> exec (Suc k') w1 (CallUnsubscribe (Ref n)) = Some (Normal, w1)
           \<and> invoke (Suc k') w1 (CallUnsubscribe (Ref n) # rest) = invoke (Suc k') w1 rest)"
proof (intro conjI allI impI)
  from assms show "unsubscribe k w n =
           (case own_teardown k (detach w n s) s of
              None \<Rightarrow> None
            | Some (r0, w1) \<Rightarrow>
                (case unsubscribe_loop k w1 (children s) (- 1) (int (length (children s)))
                        (failed r0) (case r0 of Normal \<Rightarrow> None | Thrown e \<Rightarrow> Some [e]) of
                   None \<Rightarrow> None
                 | Some ((h, es), w2) \<Rightarrow>
                     Some (if h
                           then Thrown (UnsubscriptionError (case es of None \<Rightarrow> [] | Some xs \<Rightarrow> xs))
                           else Normal, w2)))"
    by (rule unsubscribe_live)
next
  from assms(1) have less: "n < length (heap w)" by (rule lookup_Some_less)
  then show l: "lookup (detach w n s) n
                  = Some (Sub (s\<lparr>isUnsubscribed := True, priv_subscriptions := None\<rparr>))"
    by simp
  then show "cancelled (detach w n s) n" by (simp add: cancelled_iff)
  from l show "children_at (detach w n s) n = []" by simp
next
  fix w1
  assume "cancelled w1 n"
  then obtain s1 where s1: "lookup w1 n = Some (Sub s1)" "isUnsubscribed s1"
    by (auto simp: cancelled_iff)
  then show u: "unsubscribe k' w1 n = Some (Normal, w1)" by (rule unsubscribe_cancelled)
  with s1 show e: "exec (Suc k') w1 (CallUnsubscribe (Ref n)) = Some (Normal, w1)" by simp
  then show "invoke (Suc k') w1 (CallUnsubscribe (Ref n) # rest) = invoke (Suc k') w1 rest"
    by simp
qed

theorem teardown_runs_after_detach_witness:
  "unsubscribe 2 reentrant_world 1 = Some (Normal, reentrant_world_cancelled)
   \<and> log reentrant_world_cancelled = [''t0'', ''t0 done'', ''t1'']
   \<and> cancelled reentrant_world_cancelled 1
   \<and> exec 1 reentrant_world_cancelled (CallUnsubscribe (Ref 1)) = Some (Normal, reentrant_world_cancelled)"
proof -
  let ?s = "\<lparr>isUnsubscribed = False,
              priv_unsubscribe = Function [Log ''t0'', CallUnsubscribe (Ref 1), Log ''t0 done''],
              priv_subscriptions = Some [Ref 2]\<rparr>"
  have h: "lookup reentrant_world 1 = Some (Sub ?s)" by (simp add: reentrant_world_def lookup_def)
  have l: "\<not> isUnsubscribed ?s" by simp
  have c: "cancelled reentrant_world_cancelled 1" by code_simp
  have r: "(case own_teardown 2 (detach reentrant_world 1 ?s) ?s of
              None \<Rightarrow> None
            | Some (r0, w1) \<Rightarrow>
                (case unsubscribe_loop 2 w1 (children ?s) (- 1) (int (length (children ?s)))
                        (failed r0) (case r0 of Normal \<Rightarrow> None | Thrown e \<Rightarrow> Some [e]) of
                   None \<Rightarrow> None
                 | Some ((h, es), w2) \<Rightarrow>
                     Some (if h
                           then Thrown (UnsubscriptionError (case es of None \<Rightarrow> [] | Some xs \<Rightarrow> xs))
                           else Normal, w2)))
           = Some (Normal, reentrant_world_cancelled)"
    by code_simp
  note t = teardown_runs_after_detach [OF h l, of 2 0 "[]"]
  from t r have "unsubscribe 2 reentrant_world 1 = Some (Normal, reentrant_world_cancelled)"
    by simp
  moreover from t c
  have "exec 1 reentrant_world_cancelled (CallUnsubscribe (Ref 1))
          = Some (Normal, reentrant_world_cancelled)"
    by simp
  ultimately show ?thesis using c by (simp add: reentrant_world_cancelled_def)
qed

section \<open>C5: adding to a cancelled node\<close>

lemma unsubscribe_fresh_wrapper:
  assumes "lookup w a = Some (Sub \<lparr>isUnsubscribed = False, priv_unsubscribe = Function b,
                                     priv_subscriptions = None\<rparr>)"
  shows "unsubscribe k w a =
     (case invoke k (store w a (Sub \<lparr>isUnsubscribed = True, priv_unsubscribe = Function b,
                                      priv_subscriptions = None\<rparr>)) b of
        None \<Rightarrow> None
      | Some (r0, w1) \<Rightarrow> Some (aggregate r0 [], w1))"
proof -
  let ?s = "\<lparr>isUnsubscribed = False, priv_unsubscribe = Function b, priv_subscriptions = None\<rparr>"
  have l: "\<not> isUnsubscribed ?s" by simp
  have loop: "unsubscribe_loop k w1 [] (- 1) 0 h e = Some ((h, e), w1)" for w1 h e
    by (subst unsubscribe_loop.simps) simp
  have agg: "(if failed r0
              then Thrown (UnsubscriptionError (case (case r0 of Normal \<Rightarrow> None | Thrown e \<Rightarrow> Some [e]) of
                                                  None \<Rightarrow> [] | Some xs \<Rightarrow> xs))
              else Normal) = aggregate r0 []" for r0
    by (cases r0) (simp_all add: aggregate_def failed_def)
  show ?thesis
    unfolding unsubscribe_live [OF assms l]
    by (simp add: own_teardown_def detach_def children_def loop agg split: option.splits)
qed

text \<open>C5. Let \<open>p\<close> be an already cancelled node. Adding a live node-like object \<open>x\<close> (other
  than \<open>p\<close> and \<open>EMPTY\<close>) is the call \<^verbatim>\<open>x.unsubscribe()\<close>: \<^verbatim>\<open>add\<close> completes as that call
  completes, in the world it leaves. Adding a callable wraps it in a new Subscription and
  cancels the wrapper at once, which invokes the callable before \<^verbatim>\<open>add\<close> returns. The
  call completes (where no plain object brings a method of its own, with a call depth above
  the potential of the world plus the weight of \<open>x\<close>). In a world that satisfies the
  invariant, whatever was added, \<open>p\<close> is still cancelled and still has no children when
  \<^verbatim>\<open>add\<close> has completed: nothing was appended.\<close>

theorem add_to_cancelled_parent:
  assumes "lookup w p = Some (Sub ps)" and "isUnsubscribed ps"
  shows "(node_like w x \<and> \<not> get_isUnsubscribed w x \<and> x \<noteq> Ref p \<and> x \<noteq> Ref EMPTY
            \<longrightarrow> add k w p x = call_unsubscribe k w x)
       \<and> add (Suc k) w p (Function b) =
           (case invoke k
                   (store (fst (new_Subscription w (Function b))) (length (heap w))
                      (Sub \<lparr>isUnsubscribed = True, priv_unsubscribe = Function b,
                            priv_subscriptions = None\<rparr>)) b of
              None \<Rightarrow> None
            | Some (r0, w1) \<Rightarrow> Some (aggregate r0 [], w1))
       \<and> (cancelled_childless w \<and> add k w p x = Some (r, w')
            \<longrightarrow> cancelled w' p \<and> children_at w' p = [])
       \<and> (no_foreign_methods w \<and> potential w + weight x < k
            \<longrightarrow> (\<exists>r w'. add k w p x = Some (r, w')))"
proof (intro conjI impI)
  assume "no_foreign_methods w \<and> potential w + weight x < k"
  then show "\<exists>r w'. add k w p x = Some (r, w')"
    by (auto intro: add_completes)
next
  assume x: "node_like w x \<and> \<not> get_isUnsubscribed w x \<and> x \<noteq> Ref p \<and> x \<noteq> Ref EMPTY"
  then have "truthy x" "typeof x = ''object''"
    by (cases x; simp add: node_like_def isObject_def)+
  with assms x show "add k w p x = call_unsubscribe k w x"
    by (simp add: add_object node_like_def)
next
  let ?w1 = "fst (new_Subscription w (Function b))"
  let ?a = "length (heap w)"
  have "lookup ?w1 ?a = Some (Sub \<lparr>isUnsubscribed = False, priv_unsubscribe = Function b,
                                    priv_subscriptions = None\<rparr>)"
    by simp
  then have "call_unsubscribe (Suc k) ?w1 (Ref ?a) =
     (case invoke k (store ?w1 ?a (Sub \<lparr>isUnsubscribed = True, priv_unsubscribe = Function b,
                                         priv_subscriptions = None\<rparr>)) b of
        None \<Rightarrow> None
      | Some (r0, w1) \<Rightarrow> Some (aggregate r0 [], w1))"
    by (simp add: unsubscribe_fresh_wrapper)
  with assms show "add (Suc k) w p (Function b) =
     (case invoke k (store ?w1 ?a (Sub \<lparr>isUnsubscribed = True, priv_unsubscribe = Function b,
                                         priv_subscriptions = None\<rparr>)) b of
        None \<Rightarrow> None
      | Some (r0, w1) \<Rightarrow> Some (aggregate r0 [], w1))"
    by (simp add: add_function)
next
  assume a: "cancelled_childless w \<and> add k w p x = Some (r, w')"
  then have st: "step\<^sup>*\<^sup>* w w'" by (auto intro: add_steps)
  from assms have "cancelled w p" by (auto simp: cancelled_iff)
  with st show c: "cancelled w' p" by (rule steps_cancelled)
  from st a have "cancelled_childless w'" by (auto intro: steps_cancelled_childless)
  with c show "children_at w' p = []"
    by (auto simp: cancelled_iff cancelled_childless_iff)
qed

theorem add_to_cancelled_parent_witness:
  "add 1 tree_world_cancelled 1 (Function [Log ''late'']) = Some (Normal, late_world)
   \<and> log late_world = [''t0'', ''t1'', ''t2'', ''late'']
   \<and> cancelled late_world 1 \<and> children_at late_world 1 = []
   \<and> add 1 tree_world 0 (Ref 3) = call_unsubscribe 1 tree_world (Ref 3)
   \<and> map_option fst (call_unsubscribe 1 tree_world (Ref 3)) = Some Normal
   \<and> no_foreign_methods tree_world_cancelled
   \<and> potential tree_world_cancelled + weight (Function [Log ''late'']) < 2
   \<and> (\<exists>r w'. add 2 tree_world_cancelled 1 (Function [Log ''late'']) = Some (r, w'))"
proof -
  let ?p = "\<lparr>isUnsubscribed = True, priv_unsubscribe = Function [Log ''t0''],
             priv_subscriptions = None\<rparr>"
  have h: "lookup tree_world_cancelled 1 = Some (Sub ?p)"
    by (simp add: tree_world_cancelled_def lookup_def)
  have i: "isUnsubscribed ?p" by simp
  have inv: "cancelled_childless tree_world_cancelled" by code_simp
  have r: "(case invoke 0
                   (store (fst (new_Subscription tree_world_cancelled (Function [Log ''late''])))
                      (length (heap tree_world_cancelled))
                      (Sub \<lparr>isUnsubscribed = True, priv_unsubscribe = Function [Log ''late''],
                            priv_subscriptions = None\<rparr>)) [Log ''late''] of
              None \<Rightarrow> None
            | Some (r0, w1) \<Rightarrow> Some (aggregate r0 [], w1)) = Some (Normal, late_world)"
    by code_simp
  note t = add_to_cancelled_parent [OF h i, where k = 0 and b = "[Log ''late'']"
      and x = "Function [Log ''late'']" and r = Normal and w' = late_world]
  from t r have a: "add 1 tree_world_cancelled 1 (Function [Log ''late'']) = Some (Normal, late_world)"
    by simp
  with inv add_to_cancelled_parent [OF h i, where k = 1 and x = "Function [Log ''late'']"
      and r = Normal and w' = late_world]
  have c: "cancelled late_world 1 \<and> children_at late_world 1 = []" by blast
  let ?e = "\<lparr>isUnsubscribed = True, priv_unsubscribe = Undefined, priv_subscriptions = None\<rparr>"
  have h0: "lookup tree_world 0 = Some (Sub ?e)" by (simp add: tree_world_def lookup_def)
  have i0: "isUnsubscribed ?e" by simp
  have n: "node_like tree_world (Ref 3) \<and> \<not> get_isUnsubscribed tree_world (Ref 3)
           \<and> Ref 3 \<noteq> Ref 0 \<and> Ref 3 \<noteq> Ref EMPTY"
    by code_simp
  from add_to_cancelled_parent [OF h0 i0, where x = "Ref 3" and k = 1] n
  have b: "add 1 tree_world 0 (Ref 3) = call_unsubscribe 1 tree_world (Ref 3)" by blast
  have v: "map_option fst (call_unsubscribe 1 tree_world (Ref 3)) = Some Normal" by code_simp
  have q: "no_foreign_methods tree_world_cancelled
           \<and> potential tree_world_cancelled + weight (Function [Log ''late'']) < 2"
    by code_simp
  with add_to_cancelled_parent [OF h i, where k = 2 and x = "Function [Log ''late'']"]
  have e: "\<exists>r w'. add 2 tree_world_cancelled 1 (Function [Log ''late'']) = Some (r, w')"
    by blast
  from a b c v q e show ?thesis by (simp add: late_world_def)
qed

section \<open>C7: when \<^verbatim>\<open>add\<close> raises\<close>

text \<open>C7 as the specification states it fails: the number \<open>0\<close> is neither \<^verbatim>\<open>null\<close>, nor a
  callable, nor node-like, and \<^verbatim>\<open>add(0)\<close> returns without raising (the early return of
  lines 99-103 takes every falsy value).\<close>

theorem add_falsy_counterexample:
  "\<not> (raises_InvalidArgument (add 0 tree_world 1 (Number 0)) (Number 0)
        \<longleftrightarrow> invalid_by_spec tree_world (Number 0))"
  by code_simp

text \<open>C7, amended. On a node \<open>n\<close>, \<^verbatim>\<open>add(x)\<close> raises the error of line 120 exactly for the
  unrecognized inputs: \<open>x\<close> truthy and \<^verbatim>\<open>typeof x\<close> neither \<^verbatim>\<open>'function'\<close> nor \<^verbatim>\<open>'object'\<close>
  (\<^verbatim>\<open>true\<close>, a number other than 0, a non-empty string); it is raised synchronously, with
  the world unchanged. For every other input the code of \<^verbatim>\<open>add\<close> raises nothing itself:
  on a live node it completes normally, and on a cancelled node it either completes
  normally with the world unchanged or it is the immediate \<^verbatim>\<open>unsubscribe()\<close> call on the
  item (or on the wrapper of a callable) and completes as that call does.\<close>

theorem add_raises_iff_unrecognized:
  assumes "lookup w n = Some (Sub s)"
  shows "(unrecognized x \<longrightarrow> add k w n x = Some (Thrown (Unrecognized x), w))
       \<and> (\<not> unrecognized x \<and> \<not> isUnsubscribed s \<longrightarrow> (\<exists>w'. add k w n x = Some (Normal, w')))
       \<and> (\<not> unrecognized x \<and> isUnsubscribed s \<longrightarrow>
            add k w n x = Some (Normal, w)
          \<or> add k w n x = call_unsubscribe k w x
          \<or> add k w n x = call_unsubscribe k (fst (new_Subscription w x)) (Ref (length (heap w))))"
proof (intro conjI impI)
  assume "unrecognized x"
  with assms show "add k w n x = Some (Thrown (Unrecognized x), w)"
    by (simp add: unrecognized_def add_unrecognized)
next
  assume a: "\<not> unrecognized x \<and> \<not> isUnsubscribed s"
  show "\<exists>w'. add k w n x = Some (Normal, w')"
  proof (cases rule: add_argument_cases [of x n])
    case noop
    with assms show ?thesis by (simp add: add_noop)
  next
    case (func b)
    with assms a show ?thesis by (simp add: add_function)
  next
    case object
    with assms a show ?thesis by (simp add: add_object)
  next
    case other
    with a show ?thesis by (simp add: unrecognized_def)
  qed
next
  assume a: "\<not> unrecognized x \<and> isUnsubscribed s"
  show "add k w n x = Some (Normal, w)
      \<or> add k w n x = call_unsubscribe k w x
      \<or> add k w n x = call_unsubscribe k (fst (new_Subscription w x)) (Ref (length (heap w)))"
  proof (cases rule: add_argument_cases [of x n])
    case noop
    with assms show ?thesis by (simp add: add_noop)
  next
    case (func b)
    with assms a show ?thesis by (simp add: add_function)
  next
    case object
    with assms a show ?thesis by (simp add: add_object)
  next
    case other
    with a show ?thesis by (simp add: unrecognized_def)
  qed
qed

theorem add_raises_iff_unrecognized_witness:
  "add 0 tree_world 1 (Number 42)
     = Some (Thrown (Error ''Unrecognized subscription 42 added to Subscription.''), tree_world)
   \<and> unrecognized (Number 42)
   \<and> \<not> unrecognized (Number 0)
   \<and> (\<exists>w'. add 0 tree_world 1 (Number 0) = Some (Normal, w'))
   \<and> \<not> unrecognized (Error ''not a node'')
   \<and> (\<exists>w'. add 0 tree_world 1 (Error ''not a node'') = Some (Normal, w'))"
proof -
  let ?s = "\<lparr>isUnsubscribed = False, priv_unsubscribe = Function [Log ''t0''],
             priv_subscriptions = Some [Ref 2, Ref 3]\<rparr>"
  have h: "lookup tree_world 1 = Some (Sub ?s)" by (simp add: tree_world_def lookup_def)
  have u: "unrecognized (Number 42)" "\<not> unrecognized (Number 0)"
    "\<not> unrecognized (Error ''not a node'')" by code_simp+
  have m: "Unrecognized (Number 42) = Error ''Unrecognized subscription 42 added to Subscription.''"
    by code_simp
  from add_raises_iff_unrecognized [OF h, of "Number 42" 0] u m
  have 1: "add 0 tree_world 1 (Number 42)
     = Some (Thrown (Error ''Unrecognized subscription 42 added to Subscription.''), tree_world)"
    by simp
  from add_raises_iff_unrecognized [OF h, of "Number 0" 0] u
  have 2: "\<exists>w'. add 0 tree_world 1 (Number 0) = Some (Normal, w')" by simp
  from add_raises_iff_unrecognized [OF h, of "Error ''not a node''" 0] u
  have 3: "\<exists>w'. add 0 tree_world 1 (Error ''not a node'') = Some (Normal, w')" by simp
  from 1 2 3 u show ?thesis by simp
qed

section \<open>C10: the finite-sequence producer\<close>

lemma subscriber_for_emit_while:
  "i \<le> length array \<Longrightarrow>
   subscriber_for obs_next obs_disposed array i (length array) observer
     = emit_while obs_next obs_disposed (drop i array) observer"
proof (induction "length array - i" arbitrary: i observer)
  case 0
  then show ?case by (subst subscriber_for.simps) simp
next
  case (Suc n)
  then have i: "i < length array" and n: "n = length array - (i + 1)" by linarith+
  from i have dr: "drop i array = array ! i # drop (Suc i) array"
    by (simp add: Cons_nth_drop_Suc)
  from i have "i + 1 \<le> length array" by simp
  from Suc.hyps(1) [OF n this] i dr show ?case
    by (subst subscriber_for.simps) simp
qed

lemma emit_while_stops:
  "\<exists>j \<le> length xs.
      emit_while obs_next obs_disposed xs observer = foldl obs_next observer (take j xs)
    \<and> (\<forall>i < j. \<not> obs_disposed (foldl obs_next observer (take i xs)))
    \<and> (j < length xs \<longrightarrow> obs_disposed (foldl obs_next observer (take j xs)))"
proof (induction xs arbitrary: observer)
  case Nil
  show ?case by simp
next
  case (Cons x xs)
  show ?case
  proof (cases "obs_disposed observer")
    case True
    then show ?thesis by (intro exI [of _ 0]) simp
  next
    case False
    from Cons [of "obs_next observer x"] obtain j where j: "j \<le> length xs"
      "emit_while obs_next obs_disposed xs (obs_next observer x)
         = foldl obs_next (obs_next observer x) (take j xs)"
      "\<forall>i < j. \<not> obs_disposed (foldl obs_next (obs_next observer x) (take i xs))"
      "j < length xs \<longrightarrow> obs_disposed (foldl obs_next (obs_next observer x) (take j xs))"
      by blast
    have "\<not> obs_disposed (foldl obs_next observer (take i (x # xs)))" if "i < Suc j" for i
      using that False j(3) by (cases i) auto
    with j False show ?thesis by (intro exI [of _ "Suc j"]) simp
  qed
qed

text \<open>C10. For every backing array and observer, the subscriber emits the elements to the
  observer in index order as long as the observer's flag is false: it stops at the first
  index \<open>j\<close> at which the flag is found set (or at the end of the array), having emitted
  exactly the first \<open>j\<close> elements, each with the flag false before it, and then calls
  \<^verbatim>\<open>observer.return()\<close>. When the field is not an array it only calls
  \<^verbatim>\<open>observer.return()\<close>.\<close>

theorem subscriber_emits_until_disposed:
  "subscriber obs_next obs_disposed obs_return (Some array) observer
     = obs_return (emit_while obs_next obs_disposed array observer)
   \<and> (\<exists>j \<le> length array.
        subscriber obs_next obs_disposed obs_return (Some array) observer
          = obs_return (foldl obs_next observer (take j array))
      \<and> (\<forall>i < j. \<not> obs_disposed (foldl obs_next observer (take i array)))
      \<and> (j < length array \<longrightarrow> obs_disposed (foldl obs_next observer (take j array))))
   \<and> subscriber obs_next obs_disposed obs_return None observer = obs_return observer"
proof -
  have 1: "subscriber obs_next obs_disposed obs_return (Some array) observer
             = obs_return (emit_while obs_next obs_disposed array observer)"
    by (simp add: subscriber_def subscriber_for_emit_while)
  from emit_while_stops [of array obs_next obs_disposed observer] obtain j where
    "j \<le> length array"
    "emit_while obs_next obs_disposed array observer = foldl obs_next observer (take j array)"
    "\<forall>i < j. \<not> obs_disposed (foldl obs_next observer (take i array))"
    "j < length array \<longrightarrow> obs_disposed (foldl obs_next observer (take j array))"
    by blast
  with 1 have "\<exists>j \<le> length array.
        subscriber obs_next obs_disposed obs_return (Some array) observer
          = obs_return (foldl obs_next observer (take j array))
      \<and> (\<forall>i < j. \<not> obs_disposed (foldl obs_next observer (take i array)))
      \<and> (j < length array \<longrightarrow> obs_disposed (foldl obs_next observer (take j array)))"
    by auto
  with 1 show ?thesis by (simp add: subscriber_def)
qed

theorem subscriber_emits_until_disposed_witness:
  "subscriber counting_next counting_disposed counting_return (Some [10, 20, 30])
     \<lparr>received = [], remaining = 2, returned = False\<rparr>
     = \<lparr>received = [10, 20], remaining = 0, returned = True\<rparr>
   \<and> subscriber counting_next counting_disposed counting_return (Some [10, 20, 30])
     \<lparr>received = [], remaining = 5, returned = False\<rparr>
     = \<lparr>received = [10, 20, 30], remaining = 2, returned = True\<rparr>"
proof -
  have e: "counting_return (emit_while counting_next counting_disposed [10, 20, 30]
              \<lparr>received = [], remaining = 2, returned = False\<rparr>)
           = \<lparr>received = [10, 20], remaining = 0, returned = True\<rparr>"
    "counting_return (emit_while counting_next counting_disposed [10, 20, 30]
              \<lparr>received = [], remaining = 5, returned = False\<rparr>)
           = \<lparr>received = [10, 20, 30], remaining = 2, returned = True\<rparr>"
    by (simp_all add: counting_next_def counting_disposed_def counting_return_def)
  from subscriber_emits_until_disposed [of counting_next counting_disposed counting_return
         "[10, 20, 30]" "\<lparr>received = [], remaining = 2, returned = False\<rparr>"]
       subscriber_emits_until_disposed [of counting_next counting_disposed counting_return
         "[10, 20, 30]" "\<lparr>received = [], remaining = 5, returned = False\<rparr>"] e
  show ?thesis by simp
qed

end
